theory Spec2Isabelle
  imports Complex_Main "HOL-Library.Sublist"
begin

section \<open>Python strings\<close>

text \<open>
  A Python \<open>str\<close> is a sequence of Unicode code points, so a string of the program is a
  list of code points (\<open>nat\<close>). Dictionary keys and exception messages, which the source
  writes as literals, stay HOL strings; \<open>ustr_of\<close> turns a literal into code points.
\<close>

type_synonym ustr = "nat list"

definition ustr_of :: "string \<Rightarrow> ustr" where
  "ustr_of s = map of_char s"

text \<open>
  \<open>str.isspace\<close> for one code point: the characters that \<open>str.split()\<close> and
  \<open>str.strip()\<close> without arguments treat as whitespace (U+0009..U+000D, U+001C..U+0020,
  U+0085, U+00A0, U+1680, U+2000..U+200A, U+2028, U+2029, U+202F, U+205F, U+3000).
\<close>

definition is_space :: "nat \<Rightarrow> bool" where
  "is_space c \<longleftrightarrow>
     (9 \<le> c \<and> c \<le> 13) \<or> (28 \<le> c \<and> c \<le> 32) \<or> c = 133 \<or> c = 160 \<or> c = 5760 \<or>
     (8192 \<le> c \<and> c \<le> 8202) \<or> c = 8232 \<or> c = 8233 \<or> c = 8239 \<or> c = 8287 \<or> c = 12288"

text \<open>\<open>s.strip()\<close>: whitespace removed at both ends.\<close>

definition py_strip :: "ustr \<Rightarrow> ustr" where
  "py_strip s = rev (dropWhile is_space (rev (dropWhile is_space s)))"

text \<open>
  \<open>s.split()\<close>: the maximal runs of non-whitespace characters, in order. \<open>split_from w s\<close>
  scans \<open>s\<close> with the word \<open>w\<close> read so far.
\<close>

fun split_from :: "ustr \<Rightarrow> ustr \<Rightarrow> ustr list" where
  "split_from w [] = (if w = [] then [] else [w])"
| "split_from w (c # cs) =
     (if is_space c then (if w = [] then split_from [] cs else w # split_from [] cs)
      else split_from (w @ [c]) cs)"

definition py_split :: "ustr \<Rightarrow> ustr list" where
  "py_split s = split_from [] s"

text \<open>\<open>sep.join(xs)\<close>.\<close>

fun py_join :: "ustr \<Rightarrow> ustr list \<Rightarrow> ustr" where
  "py_join sep [] = []"
| "py_join sep [x] = x"
| "py_join sep (x # y # ys) = x @ sep @ py_join sep (y # ys)"

text \<open>
  \<open>xs[-k:]\<close> for \<open>k > 0\<close>: the last \<open>k\<close> elements, the whole list when it has fewer.
  The subtraction on \<open>nat\<close> stops at 0, which is the second case.
\<close>

definition py_last_n :: "nat \<Rightarrow> 'a list \<Rightarrow> 'a list" where
  "py_last_n k xs = drop (length xs - k) xs"

section \<open>document_processor.py: sentence splitting\<close>

text \<open>The character class \<open>[.!?]\<close> of the splitting pattern.\<close>

definition is_boundary :: "nat \<Rightarrow> bool" where
  "is_boundary c \<longleftrightarrow> c = 46 \<or> c = 33 \<or> c = 63"

text \<open>
  \<open>re.split(r'[.!?]+', text)\<close>: the text is cut at every maximal run of boundary
  characters; a run at the start or at the end leaves an empty piece there.
  \<open>re_split_from piece after s\<close> scans \<open>s\<close> with the piece read so far; \<open>after\<close> says
  that the previous character belonged to a separator.
\<close>

fun re_split_from :: "ustr \<Rightarrow> bool \<Rightarrow> ustr \<Rightarrow> ustr list" where
  "re_split_from piece after [] = [piece]"
| "re_split_from piece after (c # cs) =
     (if is_boundary c
      then (if after then re_split_from [] True cs else piece # re_split_from [] True cs)
      else re_split_from (piece @ [c]) False cs)"

definition re_split :: "ustr \<Rightarrow> ustr list" where
  "re_split s = re_split_from [] False s"

text \<open>The cleaning loop of \<open>_split_into_sentences\<close>.\<close>

fun clean_sentences :: "ustr list \<Rightarrow> ustr list" where
  "clean_sentences [] = []"
| "clean_sentences (s # ss) =
     (let sentence = py_strip s
      in if sentence \<noteq> [] \<and> length sentence > 10 then sentence # clean_sentences ss
         else clean_sentences ss)"

definition split_into_sentences :: "ustr \<Rightarrow> ustr list" where
  "split_into_sentences t = clean_sentences (re_split t)"

section \<open>document_processor.py: chunking\<close>

record doc_metadata =
  md_source :: ustr
  md_total_pages :: nat
  md_extraction_method :: ustr

record page_data =
  pd_page :: int
  pd_text :: ustr

record document_data =
  content :: "page_data list"
  metadata :: doc_metadata

record chunk_metadata =
  cm_source :: ustr
  cm_page :: int
  cm_chunk_index :: nat
  cm_word_count :: nat
  cm_sentence_count :: nat
  cm_extraction_method :: ustr

record chunk =
  chunk_id :: nat
  chunk_text :: ustr
  chunk_meta :: chunk_metadata

record document_processor =
  chunk_size :: int
  chunk_overlap :: int

text \<open>
  \<open>_create_chunk(chunk_id, text, page_num, doc_metadata, sentences)\<close>. The chunking loop
  is modelled as the list of the argument tuples \<open>(chunk_id, text, page_num, sentences)\<close> of
  its calls of \<open>_create_chunk\<close>, in call order: the chunk dictionary keeps only the number
  of sentences, and the statements about overlap need the sentences themselves.
\<close>

type_synonym chunk_call = "nat \<times> ustr \<times> int \<times> ustr list"

definition call_text :: "chunk_call \<Rightarrow> ustr" where
  "call_text c = fst (snd c)"

definition call_page :: "chunk_call \<Rightarrow> int" where
  "call_page c = fst (snd (snd c))"

definition call_sentences :: "chunk_call \<Rightarrow> ustr list" where
  "call_sentences c = snd (snd (snd c))"

definition create_chunk :: "doc_metadata \<Rightarrow> chunk_call \<Rightarrow> chunk" where
  "create_chunk md c =
     (case c of (cid, txt, page_num, sentences) \<Rightarrow>
       \<lparr>chunk_id = cid, chunk_text = py_strip txt,
        chunk_meta = \<lparr>cm_source = md_source md, cm_page = page_num, cm_chunk_index = cid,
                      cm_word_count = length (py_split txt),
                      cm_sentence_count = length sentences,
                      cm_extraction_method = md_extraction_method md\<rparr>\<rparr>)"

text \<open>
  "Start new chunk with overlap": the new \<open>current_chunk\<close> and \<open>current_sentences\<close>
  after the triggering sentence, from the sentences of the chunk just closed.
\<close>

definition start_new_chunk :: "document_processor \<Rightarrow> ustr list \<Rightarrow> ustr \<Rightarrow> ustr \<times> ustr list" where
  "start_new_chunk p current_sentences sentence =
     (if chunk_overlap p > 0 \<and> current_sentences \<noteq> []
      then (let overlap_sentences = py_last_n (nat (chunk_overlap p)) current_sentences
            in (py_join [32] overlap_sentences @ [32] @ sentence, overlap_sentences @ [sentence]))
      else (sentence, [sentence]))"

text \<open>
  The loop over the sentences of one page, with \<open>chunk_id\<close>, \<open>current_chunk\<close> and
  \<open>current_sentences\<close> as they stand; the first equation is the flush after the loop.
\<close>

fun sentence_loop ::
  "document_processor \<Rightarrow> int \<Rightarrow> nat \<Rightarrow> ustr list \<Rightarrow> ustr \<Rightarrow> ustr list \<Rightarrow> chunk_call list" where
  "sentence_loop p page_num cid [] current_chunk current_sentences =
     (if current_chunk \<noteq> [] then [(cid, current_chunk, page_num, current_sentences)] else [])"
| "sentence_loop p page_num cid (sentence # rest) current_chunk current_sentences =
     (let test_chunk = (if current_chunk \<noteq> [] then current_chunk @ [32] @ sentence else sentence)
      in if int (length (py_split test_chunk)) \<le> chunk_size p
         then sentence_loop p page_num cid rest test_chunk (current_sentences @ [sentence])
         else (let new = start_new_chunk p current_sentences sentence
               in if current_chunk \<noteq> []
                  then (cid, current_chunk, page_num, current_sentences)
                         # sentence_loop p page_num (Suc cid) rest (fst new) (snd new)
                  else sentence_loop p page_num cid rest (fst new) (snd new)))"

text \<open>The loop over the pages; \<open>chunk_id\<close> runs on across pages.\<close>

fun page_loop :: "document_processor \<Rightarrow> nat \<Rightarrow> page_data list \<Rightarrow> chunk_call list" where
  "page_loop p cid [] = []"
| "page_loop p cid (pd # pds) =
     (let calls = sentence_loop p (pd_page pd) cid (split_into_sentences (pd_text pd)) [] []
      in calls @ page_loop p (cid + length calls) pds)"

definition chunk_calls :: "document_processor \<Rightarrow> document_data \<Rightarrow> chunk_call list" where
  "chunk_calls p dd = page_loop p 0 (content dd)"

definition split_text_into_chunks :: "document_processor \<Rightarrow> document_data \<Rightarrow> chunk list" where
  "split_text_into_chunks p dd = map (create_chunk (metadata dd)) (chunk_calls p dd)"

text \<open>
  The invariant of the sentence loop: \<open>current_chunk\<close> is \<open>current_sentences\<close> joined by
  single spaces, and no sentence is empty.
\<close>

definition loop_inv :: "ustr \<Rightarrow> ustr list \<Rightarrow> bool" where
  "loop_inv current_chunk current_sentences \<longleftrightarrow>
     current_chunk = py_join [32] current_sentences \<and> (\<forall>s \<in> set current_sentences. s \<noteq> [])"

text \<open>
  The scenario of the specification: one page, \<open>chunk_size = 5\<close>, an overlap of one
  sentence.
\<close>

definition scenario_processor :: document_processor where
  "scenario_processor = \<lparr>chunk_size = 5, chunk_overlap = 1\<rparr>"

definition scenario_document :: document_data where
  "scenario_document =
     \<lparr>content = [\<lparr>pd_page = 1,
                   pd_text = ustr_of ''ML is great. AI is powerful. Deep learning is a subset.''\<rparr>],
      metadata = \<lparr>md_source = ustr_of ''doc.pdf'', md_total_pages = 1,
                  md_extraction_method = ustr_of ''pdfplumber''\<rparr>\<rparr>"

section \<open>document_processor.py: the overlap between chunks\<close>

text \<open>
  The last \<open>min(chunk_overlap, sentence_count)\<close> sentences of a chunk, from the sentences
  handed to \<open>_create_chunk\<close> for it.
\<close>

definition tail_sentences :: "document_processor \<Rightarrow> chunk_call \<Rightarrow> ustr list" where
  "tail_sentences p c =
     py_last_n (min (nat (chunk_overlap p)) (length (call_sentences c))) (call_sentences c)"

text \<open>
  The second chunk begins with these sentences; \<open>overlaps_on_page\<close> asks it of two chunks
  with the same page number only.
\<close>

definition overlaps :: "document_processor \<Rightarrow> chunk_call \<Rightarrow> chunk_call \<Rightarrow> bool" where
  "overlaps p c c' \<longleftrightarrow> prefix (tail_sentences p c) (call_sentences c')"

definition overlaps_on_page :: "document_processor \<Rightarrow> chunk_call \<Rightarrow> chunk_call \<Rightarrow> bool" where
  "overlaps_on_page p c c' \<longleftrightarrow> (call_page c = call_page c' \<longrightarrow> overlaps p c c')"

text \<open>
  The calls of \<open>_create_chunk\<close> made for page \<open>j\<close> of the document (counted from 0): the
  sentence loop on that page, with the \<open>chunk_id\<close> the earlier pages have left.
\<close>

definition page_calls :: "document_processor \<Rightarrow> document_data \<Rightarrow> nat \<Rightarrow> chunk_call list" where
  "page_calls p dd j =
     (let pd = content dd ! j
      in sentence_loop p (pd_page pd) (length (page_loop p 0 (take j (content dd))))
           (split_into_sentences (pd_text pd)) [] [])"

section \<open>embedding_service.py: cosine similarity\<close>

text \<open>The exceptions the program raises or catches; a failing call returns \<open>Inl\<close> of one.\<close>

datatype exn = RuntimeError string | ValueError string | KeyError string | IndexError string
  | AttributeError string | TypeError string | StopIteration | ProviderError string
  | TransportError string










section \<open>embedding_service.py: the embedder\<close>

text \<open>
  The values a dictionary of the program holds under its keys: \<open>None\<close>, strings, integers,
  floats (the numbers of an embedding are only stored and copied here, and are written as
  reals), lists, and dictionaries with string keys, in insertion order.
\<close>

datatype pyval = PNone | PStr ustr | PInt int | PFloat real | PList "pyval list"
  | PDict "(string \<times> pyval) list"

text \<open>\<open>bool(v)\<close>, which \<open>not v\<close> negates.\<close>

fun truthy :: "pyval \<Rightarrow> bool" where
  "truthy PNone = False"
| "truthy (PStr s) = (s \<noteq> [])"
| "truthy (PInt n) = (n \<noteq> 0)"
| "truthy (PFloat x) = (x \<noteq> 0)"
| "truthy (PList xs) = (xs \<noteq> [])"
| "truthy (PDict kvs) = (kvs \<noteq> [])"

text \<open>
  The embedding provider, \<open>self.client.embeddings.create(model=..., input=...)\<close>. Its input
  is one string or a list of strings. What it answers is not the program's to decide: it
  is a parameter, a function of the requests made so far and of the request, giving an
  exception or the embeddings of \<open>response.data\<close> in order. The requests made are logged,
  so that a statement can say that the provider was not called.
\<close>

datatype embed_input = Single ustr | Many "ustr list"

type_synonym request = "ustr \<times> embed_input"

type_synonym provider = "request list \<Rightarrow> request \<Rightarrow> exn + real list list"

record embedding_service =
  model :: ustr
  embedding_dimension :: nat

text \<open>\<open>_get_embedding_dimension\<close> and the constructor.\<close>

definition get_embedding_dimension :: "ustr \<Rightarrow> nat" where
  "get_embedding_dimension m =
     (case map_of [(ustr_of ''text-embedding-3-small'', 1536),
                   (ustr_of ''text-embedding-3-large'', 3072),
                   (ustr_of ''text-embedding-ada-002'', 1536)] m of
        Some d \<Rightarrow> d
      | None \<Rightarrow> 1536)"

definition new_embedding_service :: "ustr \<Rightarrow> embedding_service" where
  "new_embedding_service m = \<lparr>model = m, embedding_dimension = get_embedding_dimension m\<rparr>"

text \<open>\<open>[0.0] * self.embedding_dimension\<close>.\<close>

definition zero_vector :: "embedding_service \<Rightarrow> real list" where
  "zero_vector e = replicate (embedding_dimension e) 0"

text \<open>\<open>_clean_text\<close> on a string.\<close>

definition clean_text :: "ustr \<Rightarrow> ustr" where
  "clean_text t =
     (if t = [] then []
      else (let cleaned = py_join [32] (py_split t);
                words = py_split cleaned
            in if length words > 8000 then py_join [32] (take 8000 words) else cleaned))"

text \<open>
  \<open>generate_embedding\<close>, with the log of requests before and after. An exception of the
  provider, or of \<open>response.data[0]\<close> on an empty answer, is raised again.
\<close>

definition generate_embedding ::
  "provider \<Rightarrow> embedding_service \<Rightarrow> request list \<Rightarrow> ustr \<Rightarrow> (exn + real list) \<times> request list" where
  "generate_embedding prov e reqs t =
     (let cleaned_text = clean_text t
      in if cleaned_text = [] then (Inr (zero_vector e), reqs)
         else (let req = (model e, Single cleaned_text)
               in case prov reqs req of
                    Inl ex \<Rightarrow> (Inl ex, reqs @ [req])
                  | Inr data \<Rightarrow>
                      (case data of
                         [] \<Rightarrow> (Inl (IndexError ''list index out of range''), reqs @ [req])
                       | embedding # _ \<Rightarrow> (Inr embedding, reqs @ [req]))))"

text \<open>
  \<open>_clean_text\<close> on a value of any type, as \<open>_process_batch\<close> may meet it: a value that is
  not a string and not falsy has no \<open>split\<close>.
\<close>

definition clean_text_arg :: "pyval \<Rightarrow> exn + ustr" where
  "clean_text_arg v =
     (if \<not> truthy v then Inr []
      else (case v of
              PStr t \<Rightarrow> Inr (clean_text t)
            | _ \<Rightarrow> Inl (AttributeError ''split'')))"

text \<open>\<open>[self._clean_text(text) for text in texts]\<close>: the first exception ends it.\<close>

fun clean_texts :: "pyval list \<Rightarrow> exn + ustr list" where
  "clean_texts [] = Inr []"
| "clean_texts (v # vs) =
     (case clean_text_arg v of
        Inl ex \<Rightarrow> Inl ex
      | Inr c \<Rightarrow> (case clean_texts vs of Inl ex \<Rightarrow> Inl ex | Inr cs \<Rightarrow> Inr (c # cs)))"

text \<open>
  The loop that rebuilds the results of a batch: \<open>valid_iter\<close> is what is left of the
  iterator over \<open>response.data\<close>; \<open>next\<close> on an exhausted iterator raises
  \<open>StopIteration\<close>.
\<close>

fun reconstruct :: "real list \<Rightarrow> nat list \<Rightarrow> nat list \<Rightarrow> real list list \<Rightarrow> exn + real list list" where
  "reconstruct zero valid_indices [] valid_iter = Inr []"
| "reconstruct zero valid_indices (idx # idxs) valid_iter =
     (if idx \<in> set valid_indices
      then (case valid_iter of
              [] \<Rightarrow> Inl StopIteration
            | d # ds \<Rightarrow>
                (case reconstruct zero valid_indices idxs ds of
                   Inl ex \<Rightarrow> Inl ex
                 | Inr embeddings \<Rightarrow> Inr (d # embeddings)))
      else (case reconstruct zero valid_indices idxs valid_iter of
              Inl ex \<Rightarrow> Inl ex
            | Inr embeddings \<Rightarrow> Inr (zero # embeddings)))"

text \<open>
  \<open>_process_batch\<close>: every exception inside it is caught and answered with zero vectors
  for the whole batch.
\<close>

definition process_batch ::
  "provider \<Rightarrow> embedding_service \<Rightarrow> request list \<Rightarrow> pyval list \<Rightarrow> real list list \<times> request list" where
  "process_batch prov e reqs texts =
     (let zeros = replicate (length texts) (zero_vector e)
      in case clean_texts texts of
           Inl ex \<Rightarrow> (zeros, reqs)
         | Inr cleaned_texts \<Rightarrow>
             (let valid = filter (\<lambda>(idx, t). t \<noteq> []) (enumerate 0 cleaned_texts);
                  valid_texts = map snd valid;
                  valid_indices = map fst valid
              in if valid_texts = [] then (zeros, reqs)
                 else (let req = (model e, Many valid_texts)
                       in case prov reqs req of
                            Inl ex \<Rightarrow> (zeros, reqs @ [req])
                          | Inr data \<Rightarrow>
                              (case reconstruct (zero_vector e) valid_indices [0..<length texts] data of
                                 Inl ex \<Rightarrow> (zeros, reqs @ [req])
                               | Inr embeddings \<Rightarrow> (embeddings, reqs @ [req])))))"

text \<open>
  The loop of \<open>generate_embeddings_batch\<close> for a positive \<open>batch_size\<close>, at index \<open>i\<close> of
  \<open>range(0, len(texts), batch_size)\<close>.
\<close>

function batch_loop ::
  "provider \<Rightarrow> embedding_service \<Rightarrow> nat \<Rightarrow> pyval list \<Rightarrow> nat \<Rightarrow> request list \<Rightarrow> real list list
     \<Rightarrow> real list list \<times> request list" where
  "batch_loop prov e batch_size texts i reqs embeddings =
     (if 0 < batch_size \<and> i < length texts
      then (let batch = take batch_size (drop i texts);
                r = process_batch prov e reqs batch
            in batch_loop prov e batch_size texts (i + batch_size) (snd r) (embeddings @ fst r))
      else (embeddings, reqs))"
  by pat_completeness auto
termination
  by (relation "measure (\<lambda>(prov, e, batch_size, texts, i, reqs, embeddings). length texts - i)") auto

declare batch_loop.simps [simp del]

text \<open>
  \<open>generate_embeddings_batch\<close>: \<open>range\<close> refuses a step of 0 and is empty for a negative
  step.
\<close>

definition generate_embeddings_batch ::
  "provider \<Rightarrow> embedding_service \<Rightarrow> request list \<Rightarrow> pyval list \<Rightarrow> int
     \<Rightarrow> (exn + real list list) \<times> request list" where
  "generate_embeddings_batch prov e reqs texts batch_size =
     (if batch_size = 0 then (Inl (ValueError ''range() arg 3 must not be zero''), reqs)
      else if batch_size < 0 then (Inr [], reqs)
      else (let r = batch_loop prov e (nat batch_size) texts 0 reqs []
            in (Inr (fst r), snd r)))"

section \<open>embedding_service.py: embeddings for chunks\<close>

text \<open>
  The chunk dictionaries are objects: a heap is the list of the dictionaries that exist,
  an object is its index in the heap, and a new object is appended. A reference of the
  program always points to an object, so the addresses the program holds are below the
  length of the heap. \<open>dict_set\<close> is \<open>d[k] = v\<close> on the contents of a dictionary.
\<close>

type_synonym dict = "(string \<times> pyval) list"

type_synonym heap = "dict list"

fun dict_set :: "string \<Rightarrow> pyval \<Rightarrow> dict \<Rightarrow> dict" where
  "dict_set k v [] = [(k, v)]"
| "dict_set k v ((k', v') # d) = (if k' = k then (k, v) # d else (k', v') # dict_set k v d)"

text \<open>\<open>[chunk["text"] for chunk in chunks]\<close>: a missing key raises \<open>KeyError\<close>.\<close>

fun chunk_texts :: "heap \<Rightarrow> nat list \<Rightarrow> exn + pyval list" where
  "chunk_texts h [] = Inr []"
| "chunk_texts h (a # as) =
     (case map_of (h ! a) ''text'' of
        None \<Rightarrow> Inl (KeyError ''text'')
      | Some v \<Rightarrow> (case chunk_texts h as of Inl ex \<Rightarrow> Inl ex | Inr vs \<Rightarrow> Inr (v # vs)))"

text \<open>
  The loop over \<open>zip(chunks, embeddings)\<close>: \<open>chunk.copy()\<close> makes a new dictionary with the
  contents of the chunk, and the three assignments are made to the copy. The result is
  the list of the new objects and the heap.
\<close>

fun enrich_loop :: "embedding_service \<Rightarrow> heap \<Rightarrow> (nat \<times> real list) list \<Rightarrow> nat list \<times> heap" where
  "enrich_loop e h [] = ([], h)"
| "enrich_loop e h ((a, embedding) # rest) =
     (let enriched_chunk =
            dict_set ''embedding_dimension'' (PInt (int (length embedding)))
              (dict_set ''embedding_model'' (PStr (model e))
                 (dict_set ''embedding'' (PList (map PFloat embedding)) (h ! a)));
          r = enrich_loop e (h @ [enriched_chunk]) rest
      in (length h # fst r, snd r))"

text \<open>\<open>generate_embeddings_for_chunks\<close>; the batch size is the default, 100.\<close>

definition generate_embeddings_for_chunks ::
  "provider \<Rightarrow> embedding_service \<Rightarrow> request list \<Rightarrow> heap \<Rightarrow> nat list
     \<Rightarrow> (exn + nat list) \<times> heap \<times> request list" where
  "generate_embeddings_for_chunks prov e reqs h chunks =
     (case chunk_texts h chunks of
        Inl ex \<Rightarrow> (Inl ex, h, reqs)
      | Inr texts \<Rightarrow>
          (let r = generate_embeddings_batch prov e reqs texts 100
           in case fst r of
                Inl ex \<Rightarrow> (Inl ex, h, snd r)
              | Inr embeddings \<Rightarrow>
                  (let l = enrich_loop e h (zip chunks embeddings)
                   in (Inr (fst l), snd l, snd r))))"

section \<open>endee_client.py\<close>

text \<open>
  The answer of the Endee server to a request is not the program's to decide: it is an
  argument of the model, an exception of the HTTP client or the status code, with the
  decoded body where the program reads it.
\<close>

type_synonym http_response = "exn + int"

definition health_check_sync :: "http_response \<Rightarrow> bool" where
  "health_check_sync response =
     (case response of Inl ex \<Rightarrow> False | Inr status_code \<Rightarrow> status_code = 200)"

definition create_collection_sync :: "http_response \<Rightarrow> bool" where
  "create_collection_sync response =
     (case response of
        Inl ex \<Rightarrow> False
      | Inr status_code \<Rightarrow>
          (if status_code \<in> set [200, 201] then True
           else if status_code = 409 then True
           else False))"

definition insert_vectors_sync :: "http_response \<Rightarrow> bool" where
  "insert_vectors_sync response =
     (case response of Inl ex \<Rightarrow> False | Inr status_code \<Rightarrow> status_code \<in> set [200, 201])"

text \<open>\<open>d.get(k, default)\<close>, \<open>len(v)\<close> and the elements \<open>for x in v\<close> runs over.\<close>

definition py_get :: "pyval \<Rightarrow> string \<Rightarrow> pyval \<Rightarrow> exn + pyval" where
  "py_get d k dflt =
     (case d of
        PDict kvs \<Rightarrow> Inr (case map_of kvs k of Some v \<Rightarrow> v | None \<Rightarrow> dflt)
      | _ \<Rightarrow> Inl (AttributeError ''get''))"

definition py_iter :: "pyval \<Rightarrow> exn + pyval list" where
  "py_iter v =
     (case v of
        PList xs \<Rightarrow> Inr xs
      | PStr s \<Rightarrow> Inr (map (\<lambda>c. PStr [c]) s)
      | PDict kvs \<Rightarrow> Inr (map (\<lambda>kv. PStr (ustr_of (fst kv))) kvs)
      | _ \<Rightarrow> Inl (TypeError ''object is not iterable''))"

definition bind_exn :: "exn + 'a \<Rightarrow> ('a \<Rightarrow> exn + 'b) \<Rightarrow> exn + 'b" where
  "bind_exn r f = (case r of Inl ex \<Rightarrow> Inl ex | Inr x \<Rightarrow> f x)"

text \<open>
  \<open>search_vectors_sync\<close>: the answer carries the status code and the decoded JSON body
  (\<open>response.json()\<close> may raise). Every exception is answered with the empty list.
\<close>

definition search_vectors_sync :: "exn + int \<times> (exn + pyval) \<Rightarrow> pyval" where
  "search_vectors_sync response =
     (case response of
        Inl ex \<Rightarrow> PList []
      | Inr (status_code, body) \<Rightarrow>
          (if status_code = 200
           then (case bind_exn body (\<lambda>results.
                        bind_exn (py_get results ''results'' (PList [])) (\<lambda>found.
                        bind_exn (py_iter found) (\<lambda>_. Inr found))) of
                   Inl ex \<Rightarrow> PList []
                 | Inr found \<Rightarrow> found)
           else PList []))"

record vector_store =
  collection_name :: ustr
  vs_initialized :: bool

text \<open>
  \<open>VectorStore.initialize\<close>, with the answers of the server to the health check and to the
  creation of the collection. The two client calls catch their exceptions themselves.
\<close>

definition vs_initialize :: "vector_store \<Rightarrow> http_response \<Rightarrow> http_response \<Rightarrow> bool \<times> vector_store" where
  "vs_initialize vs health created =
     (if \<not> health_check_sync health then (False, vs)
      else (let success = create_collection_sync created
            in (success, if success then vs\<lparr>vs_initialized := True\<rparr> else vs)))"

text \<open>
  \<open>store_document_chunks\<close>: the vectors are built from the keys \<open>metadata\<close> (with its
  \<open>source\<close>), \<open>chunk_id\<close>, \<open>embedding\<close> and \<open>text\<close> of every chunk, and a missing key makes the
  call return \<open>False\<close>. The body of the request is determined by the dictionaries and the
  clock; the answer of the server is an argument as before.
\<close>

definition vector_data_keys :: "dict \<Rightarrow> bool" where
  "vector_data_keys chunk \<longleftrightarrow>
     (case map_of chunk ''metadata'' of
        Some (PDict md) \<Rightarrow> map_of md ''source'' \<noteq> None
      | _ \<Rightarrow> False) \<and>
     map_of chunk ''chunk_id'' \<noteq> None \<and> map_of chunk ''embedding'' \<noteq> None \<and>
     map_of chunk ''text'' \<noteq> None"

definition store_document_chunks :: "vector_store \<Rightarrow> http_response \<Rightarrow> dict list \<Rightarrow> bool" where
  "store_document_chunks vs inserted chunks_with_embeddings =
     (if \<not> vs_initialized vs then False
      else if \<not> list_all vector_data_keys chunks_with_embeddings then False
      else insert_vectors_sync inserted)"

text \<open>\<open>search_similar_chunks\<close> and the formatting of one result.\<close>

definition format_result :: "pyval \<Rightarrow> exn + pyval" where
  "format_result result =
     bind_exn (py_get result ''id'' PNone) (\<lambda>rid.
     bind_exn (py_get result ''score'' (PFloat 0)) (\<lambda>score.
     bind_exn (py_get result ''metadata'' (PDict [])) (\<lambda>md.
     bind_exn (py_get md ''text'' (PStr [])) (\<lambda>txt.
     bind_exn (py_get md ''source'' (PStr [])) (\<lambda>source.
     bind_exn (py_get md ''page'' (PInt 0)) (\<lambda>page.
     bind_exn (py_get md ''chunk_index'' (PInt 0)) (\<lambda>chunk_index.
       Inr (PDict [(''id'', rid), (''score'', score), (''text'', txt), (''source'', source),
                   (''page'', page), (''chunk_index'', chunk_index), (''metadata'', md)]))))))))"

fun format_results :: "pyval list \<Rightarrow> exn + pyval list" where
  "format_results [] = Inr []"
| "format_results (r # rs) =
     bind_exn (format_result r) (\<lambda>f. bind_exn (format_results rs) (\<lambda>fs. Inr (f # fs)))"

definition search_similar_chunks :: "vector_store \<Rightarrow> exn + int \<times> (exn + pyval) \<Rightarrow> pyval list" where
  "search_similar_chunks vs response =
     (if \<not> vs_initialized vs then []
      else (case bind_exn (py_iter (search_vectors_sync response)) format_results of
              Inl ex \<Rightarrow> []
            | Inr formatted_results \<Rightarrow> formatted_results))"

section \<open>rag_pipeline.py\<close>

record rag_pipeline =
  the_document_processor :: document_processor
  the_embedding_service :: embedding_service
  the_vector_store :: vector_store
  initialized :: bool

text \<open>The constructor, from the settings it reads.\<close>

definition new_rag_pipeline :: "int \<Rightarrow> int \<Rightarrow> ustr \<Rightarrow> rag_pipeline" where
  "new_rag_pipeline settings_chunk_size settings_chunk_overlap settings_openai_model =
     \<lparr>the_document_processor =
        \<lparr>chunk_size = settings_chunk_size, chunk_overlap = settings_chunk_overlap\<rparr>,
      the_embedding_service = new_embedding_service settings_openai_model,
      the_vector_store = \<lparr>collection_name = ustr_of ''documents'', vs_initialized = False\<rparr>,
      initialized = False\<rparr>"

text \<open>\<open>RAGPipeline.initialize\<close>.\<close>

definition initialize :: "rag_pipeline \<Rightarrow> http_response \<Rightarrow> http_response \<Rightarrow> bool \<times> rag_pipeline" where
  "initialize p health created =
     (let r = vs_initialize (the_vector_store p) health created;
          success = fst r;
          p' = p\<lparr>the_vector_store := snd r\<rparr>
      in (success, if success then p'\<lparr>initialized := True\<rparr> else p'))"

text \<open>
  What the world does during one call of the pipeline: the embedding provider, the answers
  of the server, and the PDF libraries, which give the extracted document or raise.
\<close>

record world =
  the_provider :: provider
  search_response :: "exn + int \<times> (exn + pyval)"
  insert_response :: http_response
  extracted :: "exn + document_data"

text \<open>The dictionary \<open>_create_chunk\<close> returns, as contents.\<close>

definition chunk_dict :: "chunk \<Rightarrow> dict" where
  "chunk_dict c =
     [(''chunk_id'', PInt (int (chunk_id c))),
      (''text'', PStr (chunk_text c)),
      (''metadata'', PDict
         [(''source'', PStr (cm_source (chunk_meta c))),
          (''page'', PInt (cm_page (chunk_meta c))),
          (''chunk_index'', PInt (int (cm_chunk_index (chunk_meta c)))),
          (''word_count'', PInt (int (cm_word_count (chunk_meta c)))),
          (''sentence_count'', PInt (int (cm_sentence_count (chunk_meta c)))),
          (''extraction_method'', PStr (cm_extraction_method (chunk_meta c)))])]"

text \<open>\<open>str(e)\<close> for the exceptions of the model; for a \<open>KeyError\<close> it is the key in quotes.\<close>

fun exn_str :: "exn \<Rightarrow> string" where
  "exn_str (RuntimeError m) = m"
| "exn_str (ValueError m) = m"
| "exn_str (KeyError k) = [CHR 0x27] @ k @ [CHR 0x27]"
| "exn_str (IndexError m) = m"
| "exn_str (AttributeError m) = m"
| "exn_str (TypeError m) = m"
| "exn_str StopIteration = []"
| "exn_str (ProviderError m) = m"
| "exn_str (TransportError m) = m"

text \<open>
  The result of an ingest: the statistics of the success dictionary (its identifier and
  time stamp come from \<open>uuid\<close> and the clock and are left out), or the failure dictionary
  with \<open>str(e)\<close>.
\<close>

record ingest_statistics =
  total_pages :: nat
  total_chunks :: nat
  extraction_method :: ustr
  embedding_model :: ustr
  st_embedding_dimension :: nat
  chunks_stored :: nat

datatype ingest_result = Ingested ingest_statistics | Failed string

text \<open>
  \<open>process_pdf_file\<close> and \<open>process_pdf_bytes\<close> differ in the extraction call and in the name
  they report, which the world's \<open>extracted\<close> stands for; the steps after the guard are the
  same. The body between \<open>try\<close> and \<open>except\<close> gives the statistics or the exception caught.
\<close>

definition process_steps ::
  "world \<Rightarrow> rag_pipeline \<Rightarrow> request list \<Rightarrow> (exn + ingest_statistics) \<times> request list" where
  "process_steps w p reqs =
     (case extracted w of
        Inl ex \<Rightarrow> (Inl ex, reqs)
      | Inr document_data \<Rightarrow>
          (if content document_data = []
           then (Inl (ValueError ''No text content extracted from PDF''), reqs)
           else (let chunks = split_text_into_chunks (the_document_processor p) document_data
                 in if chunks = []
                    then (Inl (ValueError ''No chunks created from document''), reqs)
                    else (let h = map chunk_dict chunks;
                              r = generate_embeddings_for_chunks (the_provider w)
                                    (the_embedding_service p) reqs h [0..<length h]
                          in case fst r of
                               Inl ex \<Rightarrow> (Inl ex, snd (snd r))
                             | Inr chunks_with_embeddings \<Rightarrow>
                                 (if \<not> store_document_chunks (the_vector_store p) (insert_response w)
                                         (map (\<lambda>a. fst (snd r) ! a) chunks_with_embeddings)
                                  then (Inl (RuntimeError ''Failed to store chunks in vector database''),
                                        snd (snd r))
                                  else (Inr \<lparr>total_pages = md_total_pages (metadata document_data),
                                             total_chunks = length chunks,
                                             extraction_method =
                                               md_extraction_method (metadata document_data),
                                             embedding_model = model (the_embedding_service p),
                                             st_embedding_dimension =
                                               embedding_dimension (the_embedding_service p),
                                             chunks_stored = length chunks_with_embeddings\<rparr>,
                                        snd (snd r)))))))"

definition process_pdf ::
  "world \<Rightarrow> rag_pipeline \<Rightarrow> request list \<Rightarrow> (exn + ingest_result) \<times> request list" where
  "process_pdf w p reqs =
     (if \<not> initialized p
      then (Inl (RuntimeError ''RAG pipeline not initialized. Call initialize() first.''), reqs)
      else (let r = process_steps w p reqs
            in case fst r of
                 Inl ex \<Rightarrow> (Inr (Failed (exn_str ex)), snd r)
               | Inr statistics \<Rightarrow> (Inr (Ingested statistics), snd r)))"

definition process_pdf_file ::
  "world \<Rightarrow> rag_pipeline \<Rightarrow> request list \<Rightarrow> ustr \<Rightarrow> (exn + ingest_result) \<times> request list" where
  "process_pdf_file w p reqs file_path = process_pdf w p reqs"

definition process_pdf_bytes ::
  "world \<Rightarrow> rag_pipeline \<Rightarrow> request list \<Rightarrow> ustr \<Rightarrow> ustr \<Rightarrow> (exn + ingest_result) \<times> request list" where
  "process_pdf_bytes w p reqs pdf_bytes filename = process_pdf w p reqs"

text \<open>\<open>RAGPipeline.search_documents\<close>.\<close>

definition search_documents ::
  "world \<Rightarrow> rag_pipeline \<Rightarrow> request list \<Rightarrow> ustr \<Rightarrow> int \<Rightarrow> real
     \<Rightarrow> (exn + pyval list) \<times> request list" where
  "search_documents w p reqs query top_k threshold =
     (if \<not> initialized p
      then (Inl (RuntimeError ''RAG pipeline not initialized. Call initialize() first.''), reqs)
      else (let r = generate_embedding (the_provider w) (the_embedding_service p) reqs query
            in case fst r of
                 Inl ex \<Rightarrow> (Inr [], snd r)
               | Inr query_embedding \<Rightarrow>
                   (Inr (search_similar_chunks (the_vector_store p) (search_response w)), snd r)))"

text \<open>
  The module's convenience function \<open>search_documents(query, top_k)\<close>: a new pipeline is
  made and initialized, and the search runs only if that succeeds.
\<close>

definition module_search_documents ::
  "world \<Rightarrow> int \<Rightarrow> int \<Rightarrow> ustr \<Rightarrow> http_response \<Rightarrow> http_response \<Rightarrow> request list \<Rightarrow> ustr \<Rightarrow> int
     \<Rightarrow> (exn + pyval list) \<times> request list" where
  "module_search_documents w settings_chunk_size settings_chunk_overlap settings_openai_model
       health created reqs query top_k =
     (let pipeline = new_rag_pipeline settings_chunk_size settings_chunk_overlap settings_openai_model;
          r = initialize pipeline health created
      in if \<not> fst r then (Inr [], reqs)
         else search_documents w (snd r) reqs query top_k 0)"

text \<open>
  A pipeline made with the default settings, and a world in which nothing answers: the
  provider and the server raise, and the extraction fails.
\<close>

definition default_pipeline :: rag_pipeline where
  "default_pipeline = new_rag_pipeline 512 50 (ustr_of ''text-embedding-3-small'')"

definition offline_world :: world where
  "offline_world =
     \<lparr>the_provider = (\<lambda>reqs req. Inl (ProviderError ''connection error'')),
      search_response = Inl (TransportError ''connection refused''),
      insert_response = Inl (TransportError ''connection refused''),
      extracted = Inl (ValueError ''Could not extract text from PDF'')\<rparr>"

text \<open>
  A provider that fails on its first request and afterwards answers every text with a
  vector of one number, the length of the text; and a service of dimension 2.
\<close>

definition flaky_provider :: provider where
  "flaky_provider reqs req =
     (if reqs = [] then Inl (ProviderError ''rate limit'')
      else (case snd req of
              Single t \<Rightarrow> Inr [ [real (length t)] ]
            | Many ts \<Rightarrow> Inr (map (\<lambda>t. [real (length t)]) ts)))"

definition small_service :: embedding_service where
  "small_service = \<lparr>model = ustr_of ''m'', embedding_dimension = 2\<rparr>"

text \<open>
  What the specification of \<open>generate_embeddings_batch\<close> says of one batch of strings, given the
  requests made before it: \<open>out\<close> is the part of the result for the batch. The texts that
  clean to something are sent in one request; when there are none, when the provider
  raises, or when it answers with fewer embeddings than texts sent, every position is the
  zero vector; otherwise a text that cleans to nothing has the zero vector and every other
  text has the embedding answered for it, in the order sent.
\<close>

definition batch_outcome ::
  "provider \<Rightarrow> embedding_service \<Rightarrow> request list \<Rightarrow> ustr list \<Rightarrow> real list list \<Rightarrow> bool" where
  "batch_outcome prov e reqs batch out \<longleftrightarrow>
     (let valid_texts = filter (\<lambda>t. t \<noteq> []) (map clean_text batch);
          zeros = replicate (length batch) (zero_vector e)
      in if valid_texts = [] then out = zeros
         else (case prov reqs (model e, Many valid_texts) of
                 Inl ex \<Rightarrow> out = zeros
               | Inr data \<Rightarrow>
                   (if length data < length valid_texts then out = zeros
                    else length out = length batch \<and>
                         (\<forall>i < length batch. out ! i =
                            (if clean_text (batch ! i) = [] then zero_vector e
                             else data ! length (filter (\<lambda>t. t \<noteq> []) (map clean_text (take i batch))))))))"

text \<open>A heap of one chunk dictionary, and the request log after one earlier request.\<close>

definition one_chunk_heap :: heap where
  "one_chunk_heap = [ [(''chunk_id'', PInt 0), (''text'', PStr (ustr_of ''hi''))] ]"

definition one_request :: "request list" where
  "one_request = [(ustr_of ''m'', Single (ustr_of ''x''))]"

section \<open>Strings: facts\<close>

lemma py_strip_Nil: "py_strip [] = []"
  by (simp add: py_strip_def)

lemma set_py_strip: "set (py_strip s) \<subseteq> set s"
proof -
  have "set (py_strip s) \<subseteq> set (dropWhile is_space s)"
    unfolding py_strip_def using set_dropWhileD by fastforce
  also have "\<dots> \<subseteq> set s"
    using set_dropWhileD by fastforce
  finally show ?thesis .
qed

lemma dropWhile_id: "xs \<noteq> [] \<Longrightarrow> \<not> P (hd xs) \<Longrightarrow> dropWhile P xs = xs"
  by (cases xs) simp_all

lemma py_strip_fixed:
  assumes "s \<noteq> []" "\<not> is_space (hd s)" "\<not> is_space (last s)"
  shows "py_strip s = s"
proof -
  have a: "dropWhile is_space s = s"
    using assms(1,2) by (rule dropWhile_id)
  have "rev s \<noteq> []" "hd (rev s) = last s"
    using assms(1) by (simp_all add: hd_rev)
  then have "dropWhile is_space (rev s) = rev s"
    using assms(3) by (intro dropWhile_id) simp_all
  with a show ?thesis by (simp add: py_strip_def)
qed

lemma dropWhile_hd: "dropWhile P xs \<noteq> [] \<Longrightarrow> \<not> P (hd (dropWhile P xs))"
  using hd_dropWhile by blast

lemma py_strip_ends:
  assumes "py_strip s \<noteq> []"
  shows "\<not> is_space (hd (py_strip s))" and "\<not> is_space (last (py_strip s))"
proof -
  let ?a = "dropWhile is_space s"
  let ?b = "dropWhile is_space (rev ?a)"
  have b: "?b \<noteq> []" using assms by (simp add: py_strip_def)
  then have hb: "\<not> is_space (hd ?b)" by (rule dropWhile_hd)
  have "last (py_strip s) = hd ?b"
    using b by (simp add: py_strip_def last_rev)
  with hb show "\<not> is_space (last (py_strip s))" by simp
  have "?a = [] \<Longrightarrow> ?b = []" by (metis dropWhile.simps(1) rev.simps(1))
  with b have a: "?a \<noteq> []" by blast
  then have ha: "\<not> is_space (hd ?a)" by (rule dropWhile_hd)
  have "rev ?a = takeWhile is_space (rev ?a) @ ?b" by simp
  then have "?a = rev ?b @ rev (takeWhile is_space (rev ?a))"
    by (metis rev_append rev_rev_ident)
  then have "hd ?a = hd (rev ?b)"
    using b by (metis hd_append2 rev_is_Nil_conv)
  with ha show "\<not> is_space (hd (py_strip s))" by (simp add: py_strip_def)
qed

lemma py_strip_idem: "py_strip (py_strip s) = py_strip s"
proof (cases "py_strip s = []")
  case True
  then show ?thesis by (simp add: py_strip_Nil)
next
  case False
  then show ?thesis by (intro py_strip_fixed py_strip_ends)
qed

section \<open>Sentence splitting: facts\<close>

lemma re_split_from_no_boundary:
  "\<forall>c \<in> set piece. \<not> is_boundary c \<Longrightarrow> x \<in> set (re_split_from piece after s) \<Longrightarrow>
   c \<in> set x \<Longrightarrow> \<not> is_boundary c"
proof (induction s arbitrary: piece after)
  case Nil
  then show ?case by simp
next
  case (Cons d ds)
  show ?case
  proof (cases "is_boundary d")
    case True
    with Cons.prems have "x = piece \<or> x \<in> set (re_split_from [] True ds)"
      by (auto split: if_splits)
    then show ?thesis
    proof
      assume "x = piece"
      with Cons.prems show ?thesis by simp
    next
      assume "x \<in> set (re_split_from [] True ds)"
      with Cons.IH [of "[]" True] Cons.prems(3) show ?thesis by simp
    qed
  next
    case False
    with Cons.prems have "x \<in> set (re_split_from (piece @ [d]) False ds)" by simp
    moreover have "\<forall>c \<in> set (piece @ [d]). \<not> is_boundary c"
      using Cons.prems(1) False by simp
    ultimately show ?thesis using Cons.IH Cons.prems(3) by blast
  qed
qed

lemma clean_sentences_sound:
  "x \<in> set (clean_sentences ss) \<Longrightarrow> \<exists>s \<in> set ss. x = py_strip s \<and> x \<noteq> [] \<and> 10 < length x"
  by (induction ss) (auto simp: Let_def split: if_splits)

lemma sentence_wellformed:
  assumes "x \<in> set (split_into_sentences t)"
  shows "x \<noteq> []" "py_strip x = x" "10 < length x" "\<forall>c \<in> set x. \<not> is_boundary c"
proof -
  from assms obtain s where s: "s \<in> set (re_split t)" "x = py_strip s" "x \<noteq> []" "10 < length x"
    unfolding split_into_sentences_def using clean_sentences_sound by blast
  show "x \<noteq> []" "10 < length x" using s by simp_all
  show "py_strip x = x" using s(2) py_strip_idem by simp
  show "\<forall>c \<in> set x. \<not> is_boundary c"
  proof
    fix c assume "c \<in> set x"
    then have "c \<in> set s" using s(2) set_py_strip by blast
    with s(1) show "\<not> is_boundary c"
      unfolding re_split_def using re_split_from_no_boundary [of "[]" s False t c] by simp
  qed
qed

section \<open>Chunking: facts\<close>

lemma py_join_snoc:
  "xs \<noteq> [] \<Longrightarrow> py_join sep (xs @ [s]) = py_join sep xs @ sep @ s"
  by (induction sep xs rule: py_join.induct) simp_all

lemma py_join_nonempty:
  "xs \<noteq> [] \<Longrightarrow> \<forall>s \<in> set xs. s \<noteq> [] \<Longrightarrow> py_join sep xs \<noteq> []"
  by (induction sep xs rule: py_join.induct) simp_all

lemma py_join_hd:
  "xs \<noteq> [] \<Longrightarrow> \<forall>s \<in> set xs. s \<noteq> [] \<Longrightarrow> hd (py_join sep xs) = hd (hd xs)"
  by (induction sep xs rule: py_join.induct) simp_all

lemma py_join_last:
  "xs \<noteq> [] \<Longrightarrow> \<forall>s \<in> set xs. s \<noteq> [] \<Longrightarrow> last (py_join sep xs) = last (last xs)"
proof (induction sep xs rule: py_join.induct)
  case (3 sep x y ys)
  then have "py_join sep (y # ys) \<noteq> []" by (intro py_join_nonempty) simp_all
  with 3 show ?case by simp
qed simp_all


lemma py_last_n_nonempty:
  assumes "0 < k" "xs \<noteq> []"
  shows "py_last_n k xs \<noteq> []"
proof -
  have "0 < length xs" using assms(2) by simp
  with assms(1) have "length xs - k < length xs" by arith
  then show ?thesis by (simp add: py_last_n_def)
qed

lemma set_py_last_n: "set (py_last_n k xs) \<subseteq> set xs"
  by (simp add: py_last_n_def set_drop_subset)

lemma loop_inv_empty: "loop_inv [] []"
  by (simp add: loop_inv_def)

lemma loop_inv_Nil_iff: "loop_inv cur curs \<Longrightarrow> cur = [] \<longleftrightarrow> curs = []"
  unfolding loop_inv_def using py_join_nonempty by fastforce

lemma loop_inv_extend:
  assumes "loop_inv cur curs" "s \<noteq> []"
  shows "loop_inv (if cur \<noteq> [] then cur @ [32] @ s else s) (curs @ [s])"
proof (cases "curs = []")
  case True
  with assms show ?thesis by (simp add: loop_inv_def)
next
  case False
  with assms have "cur \<noteq> []" using loop_inv_Nil_iff by blast
  with assms False show ?thesis by (simp add: loop_inv_def py_join_snoc)
qed

lemma loop_inv_start_new:
  assumes "loop_inv cur curs" "s \<noteq> []"
  shows "loop_inv (fst (start_new_chunk p curs s)) (snd (start_new_chunk p curs s))"
proof (cases "chunk_overlap p > 0 \<and> curs \<noteq> []")
  case True
  define ov where "ov = py_last_n (nat (chunk_overlap p)) curs"
  have eq: "start_new_chunk p curs s = (py_join [32] ov @ [32] @ s, ov @ [s])"
    using True by (simp add: start_new_chunk_def Let_def ov_def)
  have ne: "ov \<noteq> []"
    unfolding ov_def using True by (intro py_last_n_nonempty) simp_all
  have "set ov \<subseteq> set curs"
    unfolding ov_def by (rule set_py_last_n)
  moreover have "\<forall>x \<in> set curs. x \<noteq> []"
    using assms(1) by (simp add: loop_inv_def)
  ultimately have all: "\<forall>x \<in> set ov. x \<noteq> []" by blast
  have "py_join [32] (ov @ [s]) = py_join [32] ov @ [32] @ s"
    using ne by (rule py_join_snoc)
  with all assms(2) show ?thesis
    unfolding eq by (simp add: loop_inv_def)
next
  case False
  then have "start_new_chunk p curs s = (s, [s])"
    unfolding start_new_chunk_def by (rule if_not_P)
  with assms(2) show ?thesis by (simp add: loop_inv_def)
qed


lemma sentence_loop_calls:
  "loop_inv cur curs \<Longrightarrow> \<forall>s \<in> set ss. s \<noteq> [] \<Longrightarrow> c \<in> set (sentence_loop p pg cid ss cur curs) \<Longrightarrow>
   call_page c = pg \<and> loop_inv (call_text c) (call_sentences c) \<and> call_sentences c \<noteq> []"
proof (induction ss arbitrary: cur curs cid)
  case Nil
  then show ?case
    using loop_inv_Nil_iff [of cur curs]
    by (auto simp: call_page_def call_text_def call_sentences_def split: if_splits)
next
  case (Cons s ss)
  let ?test = "if cur \<noteq> [] then cur @ [32] @ s else s"
  let ?new = "start_new_chunk p curs s"
  have s: "s \<noteq> []" and rest: "\<forall>s \<in> set ss. s \<noteq> []" using Cons.prems(2) by simp_all
  show ?case
  proof (cases "int (length (py_split ?test)) \<le> chunk_size p")
    case True
    with Cons.prems(3) have "c \<in> set (sentence_loop p pg cid ss ?test (curs @ [s]))"
      by (simp add: Let_def)
    with Cons.IH [OF loop_inv_extend [OF Cons.prems(1) s] rest] show ?thesis by blast
  next
    case False
    have inv: "loop_inv (fst ?new) (snd ?new)"
      by (rule loop_inv_start_new [OF Cons.prems(1) s])
    from False Cons.prems(3) consider
        (saved) "cur \<noteq> []" "c = (cid, cur, pg, curs)"
      | (later) cid' where "c \<in> set (sentence_loop p pg cid' ss (fst ?new) (snd ?new))"
      by (auto simp: Let_def split: if_splits)
    then show ?thesis
    proof cases
      case saved
      with Cons.prems(1) loop_inv_Nil_iff [of cur curs] show ?thesis
        by (simp add: call_page_def call_text_def call_sentences_def)
    next
      case later
      with Cons.IH [OF inv rest] show ?thesis by blast
    qed
  qed
qed


lemma sentence_loop_sentences:
  "c \<in> set (sentence_loop p pg cid ss cur curs) \<Longrightarrow> set (call_sentences c) \<subseteq> set curs \<union> set ss"
proof (induction ss arbitrary: cur curs cid)
  case Nil
  then show ?case by (auto simp: call_sentences_def split: if_splits)
next
  case (Cons s ss)
  let ?test = "if cur \<noteq> [] then cur @ [32] @ s else s"
  let ?new = "start_new_chunk p curs s"
  have new: "set (snd ?new) \<subseteq> set curs \<union> {s}"
    using set_py_last_n [of "nat (chunk_overlap p)" curs]
    by (auto simp: start_new_chunk_def Let_def)
  from Cons.prems consider
      (grow) "c \<in> set (sentence_loop p pg cid ss ?test (curs @ [s]))"
    | (saved) "c = (cid, cur, pg, curs)"
    | (later) cid' where "c \<in> set (sentence_loop p pg cid' ss (fst ?new) (snd ?new))"
    by (auto simp: Let_def split: if_splits)
  then show ?case
  proof cases
    case grow
    from Cons.IH [OF this] show ?thesis by auto
  next
    case saved
    then show ?thesis by (auto simp: call_sentences_def)
  next
    case later
    from Cons.IH [OF this] new show ?thesis by auto
  qed
qed

lemma call_text_stripped:
  assumes "loop_inv t ss" "ss \<noteq> []" "\<forall>x \<in> set ss. py_strip x = x"
  shows "py_strip t = t"
proof -
  have ne: "\<forall>x \<in> set ss. x \<noteq> []" and t: "t = py_join [32] ss"
    using assms(1) by (simp_all add: loop_inv_def)
  have "hd ss \<in> set ss" "last ss \<in> set ss" using assms(2) by simp_all
  then have "py_strip (hd ss) \<noteq> []" "py_strip (last ss) \<noteq> []"
    and eq: "py_strip (hd ss) = hd ss" "py_strip (last ss) = last ss"
    using ne assms(3) by simp_all
  then have "\<not> is_space (hd (hd ss))" "\<not> is_space (last (last ss))"
    using py_strip_ends(1) [of "hd ss"] py_strip_ends(2) [of "last ss"] by simp_all
  then have "\<not> is_space (hd t)" "\<not> is_space (last t)"
    using py_join_hd [OF assms(2) ne] py_join_last [OF assms(2) ne] t by simp_all
  moreover have "t \<noteq> []" using t py_join_nonempty [OF assms(2) ne] by simp
  ultimately show ?thesis by (intro py_strip_fixed)
qed

text \<open>What holds of every call of \<open>_create_chunk\<close> made for a document.\<close>

lemma page_loop_calls:
  assumes "c \<in> set (page_loop p cid pds)"
  shows "\<exists>pd \<in> set pds. call_page c = pd_page pd \<and>
           set (call_sentences c) \<subseteq> set (split_into_sentences (pd_text pd)) \<and>
           call_sentences c \<noteq> [] \<and> loop_inv (call_text c) (call_sentences c)"
  using assms
proof (induction pds arbitrary: cid)
  case Nil
  then show ?case by simp
next
  case (Cons pd pds)
  let ?ss = "split_into_sentences (pd_text pd)"
  let ?calls = "sentence_loop p (pd_page pd) cid ?ss [] []"
  from Cons.prems have "c \<in> set ?calls \<or> c \<in> set (page_loop p (cid + length ?calls) pds)"
    by (simp add: Let_def)
  then show ?case
  proof
    assume c: "c \<in> set ?calls"
    have ne: "\<forall>s \<in> set ?ss. s \<noteq> []" using sentence_wellformed(1) by blast
    from sentence_loop_calls [OF loop_inv_empty ne c] sentence_loop_sentences [OF c]
    show ?thesis by simp
  next
    assume "c \<in> set (page_loop p (cid + length ?calls) pds)"
    from Cons.IH [OF this] show ?thesis by auto
  qed
qed


lemma chunk_call_text:
  assumes "c \<in> set (chunk_calls p dd)"
  shows "chunk_text (create_chunk md c) = py_join [32] (call_sentences c)"
proof -
  from assms have "c \<in> set (page_loop p 0 (content dd))"
    by (simp add: chunk_calls_def)
  note h = page_loop_calls [OF this]
  from h have ne: "call_sentences c \<noteq> []"
    by (elim bexE conjE)
  from h have inv: "loop_inv (call_text c) (call_sentences c)"
    by (elim bexE conjE)
  from h have "\<exists>pd :: page_data. set (call_sentences c) \<subseteq> set (split_into_sentences (pd_text pd))"
    by blast
  then obtain pd :: page_data where sub: "set (call_sentences c) \<subseteq> set (split_into_sentences (pd_text pd))" ..
  have "\<forall>x \<in> set (call_sentences c). py_strip x = x"
  proof
    fix x assume "x \<in> set (call_sentences c)"
    with sub have "x \<in> set (split_into_sentences (pd_text pd))" by (rule subsetD)
    then show "py_strip x = x" by (rule sentence_wellformed(2))
  qed
  from call_text_stripped [OF inv ne this] have "py_strip (call_text c) = call_text c" .
  moreover have "chunk_text (create_chunk md c) = py_strip (call_text c)"
    by (cases c) (simp add: create_chunk_def call_text_def)
  ultimately show ?thesis using inv by (simp add: loop_inv_def)
qed

text \<open>
  C10. Every string returned by \<open>_split_into_sentences\<close> is non-empty, is its own
  whitespace-trimmed form, has more than 10 characters and contains none of the boundary
  characters \<open>.\<close>, \<open>!\<close>, \<open>?\<close>; and every chunk is built from such strings only: the
  sentences handed to \<open>_create_chunk\<close> are sentences returned for one page of the
  document, and the chunk's text is these sentences joined by single spaces.
\<close>

theorem split_into_sentences_wellformed:
  "(\<forall>s \<in> set (split_into_sentences t).
      s \<noteq> [] \<and> py_strip s = s \<and> 10 < length s \<and> (\<forall>c \<in> set s. \<not> is_boundary c)) \<and>
   (\<forall>call \<in> set (chunk_calls p dd).
      (\<exists>pd \<in> set (content dd). set (call_sentences call) \<subseteq> set (split_into_sentences (pd_text pd))) \<and>
      chunk_text (create_chunk (metadata dd) call) = py_join [32] (call_sentences call))"
proof
  show "\<forall>s \<in> set (split_into_sentences t).
      s \<noteq> [] \<and> py_strip s = s \<and> 10 < length s \<and> (\<forall>c \<in> set s. \<not> is_boundary c)"
  proof (rule ballI, intro conjI)
    fix s assume s: "s \<in> set (split_into_sentences t)"
    show "s \<noteq> []" using s by (rule sentence_wellformed(1))
    show "py_strip s = s" using s by (rule sentence_wellformed(2))
    show "10 < length s" using s by (rule sentence_wellformed(3))
    show "\<forall>c \<in> set s. \<not> is_boundary c" using s by (rule sentence_wellformed(4))
  qed
  show "\<forall>call \<in> set (chunk_calls p dd).
      (\<exists>pd \<in> set (content dd). set (call_sentences call) \<subseteq> set (split_into_sentences (pd_text pd))) \<and>
      chunk_text (create_chunk (metadata dd) call) = py_join [32] (call_sentences call)"
  proof
    fix call assume c: "call \<in> set (chunk_calls p dd)"
    then have "call \<in> set (page_loop p 0 (content dd))"
      by (simp add: chunk_calls_def)
    from page_loop_calls [OF this]
    have "\<exists>pd \<in> set (content dd). set (call_sentences call) \<subseteq> set (split_into_sentences (pd_text pd))"
      by (elim bexE conjE, intro bexI)
    with chunk_call_text [OF c]
    show "(\<exists>pd \<in> set (content dd). set (call_sentences call) \<subseteq> set (split_into_sentences (pd_text pd))) \<and>
      chunk_text (create_chunk (metadata dd) call) = py_join [32] (call_sentences call)"
      by simp
  qed
qed

section \<open>The scenario of the specification, evaluated\<close>

lemma scenario_sentences:
  "split_into_sentences (ustr_of ''ML is great. AI is powerful. Deep learning is a subset.'') =
     [ustr_of ''ML is great'', ustr_of ''AI is powerful'', ustr_of ''Deep learning is a subset'']"
  by (simp add: split_into_sentences_def re_split_def is_boundary_def py_strip_def is_space_def
      ustr_of_def)

lemma scenario_loop:
  "sentence_loop scenario_processor 1 0
     [ustr_of ''ML is great'', ustr_of ''AI is powerful'', ustr_of ''Deep learning is a subset''] [] [] =
   [(0, ustr_of ''ML is great'', 1, [ustr_of ''ML is great'']),
    (1, ustr_of ''ML is great AI is powerful'', 1, [ustr_of ''ML is great'', ustr_of ''AI is powerful'']),
    (2, ustr_of ''AI is powerful Deep learning is a subset'', 1,
        [ustr_of ''AI is powerful'', ustr_of ''Deep learning is a subset''])]"
  unfolding scenario_processor_def
  by (simp add: ustr_of_def py_split_def is_space_def start_new_chunk_def py_last_n_def Let_def)

lemma scenario_calls:
  "chunk_calls scenario_processor scenario_document =
   [(0, ustr_of ''ML is great'', 1, [ustr_of ''ML is great'']),
    (1, ustr_of ''ML is great AI is powerful'', 1, [ustr_of ''ML is great'', ustr_of ''AI is powerful'']),
    (2, ustr_of ''AI is powerful Deep learning is a subset'', 1,
        [ustr_of ''AI is powerful'', ustr_of ''Deep learning is a subset''])]"
  by (simp add: chunk_calls_def scenario_document_def scenario_sentences scenario_loop
      del: sentence_loop.simps)

lemma scenario_word_counts:
  "length (py_split (ustr_of ''ML is great'')) = 3"
  "length (py_split (ustr_of ''ML is great AI is powerful'')) = 6"
  "length (py_split (ustr_of ''AI is powerful Deep learning is a subset'')) = 8"
  by (simp_all add: ustr_of_def py_split_def is_space_def)

theorem split_into_sentences_wellformed_witness:
  "ustr_of ''ML is great'' \<in> set (split_into_sentences
      (ustr_of ''ML is great. AI is powerful. Deep learning is a subset.'')) \<and>
   py_strip (ustr_of ''ML is great'') = ustr_of ''ML is great'' \<and>
   10 < length (ustr_of ''ML is great'') \<and>
   (1, ustr_of ''ML is great AI is powerful'', 1, [ustr_of ''ML is great'', ustr_of ''AI is powerful''])
      \<in> set (chunk_calls scenario_processor scenario_document) \<and>
   chunk_text (create_chunk (metadata scenario_document)
      (1, ustr_of ''ML is great AI is powerful'', 1, [ustr_of ''ML is great'', ustr_of ''AI is powerful'']))
     = py_join [32] [ustr_of ''ML is great'', ustr_of ''AI is powerful'']"
proof -
  let ?t = "ustr_of ''ML is great. AI is powerful. Deep learning is a subset.''"
  let ?c = "(1::nat, ustr_of ''ML is great AI is powerful'', 1::int,
             [ustr_of ''ML is great'', ustr_of ''AI is powerful''])"
  note w = split_into_sentences_wellformed [of ?t scenario_processor scenario_document]
  have s: "ustr_of ''ML is great'' \<in> set (split_into_sentences ?t)"
    by (simp add: scenario_sentences)
  have c: "?c \<in> set (chunk_calls scenario_processor scenario_document)"
    by (simp add: scenario_calls)
  from w [THEN conjunct1, THEN bspec, OF s] w [THEN conjunct2, THEN bspec, OF c] s c
  show ?thesis by (simp add: call_sentences_def)
qed

text \<open>
  C2. The chunks of the specification's scenario: the second and the third chunk hold two
  sentences each and have 6 and 8 words, with \<open>chunk_size = 5\<close>.
\<close>

theorem scenario_chunks_exceed_chunk_size:
  "map (\<lambda>c. (cm_word_count (chunk_meta c), cm_sentence_count (chunk_meta c)))
     (split_text_into_chunks scenario_processor scenario_document) = [(3, 1), (6, 2), (8, 2)] \<and>
   chunk_size scenario_processor = 5"
proof
  show "map (\<lambda>c. (cm_word_count (chunk_meta c), cm_sentence_count (chunk_meta c)))
     (split_text_into_chunks scenario_processor scenario_document) = [(3, 1), (6, 2), (8, 2)]"
    by (simp add: split_text_into_chunks_def scenario_calls create_chunk_def scenario_word_counts)
  show "chunk_size scenario_processor = 5"
    by (simp add: scenario_processor_def)
qed

section \<open>Cosine similarity: facts\<close>























section \<open>Chunking: overlap and coverage\<close>

lemma sentence_loop_first:
  "loop_inv cur curs \<Longrightarrow> \<forall>s \<in> set ss. s \<noteq> [] \<Longrightarrow> sentence_loop p pg cid ss cur curs \<noteq> [] \<Longrightarrow>
   prefix curs (call_sentences (hd (sentence_loop p pg cid ss cur curs)))"
proof (induction ss arbitrary: cur curs cid)
  case Nil
  then show ?case by (simp add: call_sentences_def split: if_splits)
next
  case (Cons s ss)
  let ?test = "if cur \<noteq> [] then cur @ [32] @ s else s"
  let ?new = "start_new_chunk p curs s"
  have s: "s \<noteq> []" and rest: "\<forall>s \<in> set ss. s \<noteq> []" using Cons.prems(2) by simp_all
  show ?case
  proof (cases "int (length (py_split ?test)) \<le> chunk_size p")
    case True
    then have eq: "sentence_loop p pg cid (s # ss) cur curs = sentence_loop p pg cid ss ?test (curs @ [s])"
      by (simp add: Let_def)
    with Cons.prems(3) have "sentence_loop p pg cid ss ?test (curs @ [s]) \<noteq> []" by simp
    from Cons.IH [OF loop_inv_extend [OF Cons.prems(1) s] rest this]
    have "prefix (curs @ [s]) (call_sentences (hd (sentence_loop p pg cid ss ?test (curs @ [s]))))" .
    then have "prefix curs (call_sentences (hd (sentence_loop p pg cid ss ?test (curs @ [s]))))"
      by (rule append_prefixD)
    with eq show ?thesis by simp
  next
    case False
    show ?thesis
    proof (cases "cur = []")
      case True
      with Cons.prems(1) have "curs = []" using loop_inv_Nil_iff by blast
      then show ?thesis by simp
    next
      case ne: False
      with False have "hd (sentence_loop p pg cid (s # ss) cur curs) = (cid, cur, pg, curs)"
        by (simp add: Let_def)
      then show ?thesis by (simp add: call_sentences_def)
    qed
  qed
qed

lemma py_last_n_min: "py_last_n (min k (length xs)) xs = py_last_n k xs"
  by (simp add: py_last_n_def min_def)

lemma sentence_loop_overlaps:
  "0 < chunk_overlap p \<Longrightarrow> loop_inv cur curs \<Longrightarrow> \<forall>s \<in> set ss. s \<noteq> [] \<Longrightarrow>
   successively (overlaps p) (sentence_loop p pg cid ss cur curs)"
proof (induction ss arbitrary: cur curs cid)
  case Nil
  then show ?case by simp
next
  case (Cons s ss)
  let ?test = "if cur \<noteq> [] then cur @ [32] @ s else s"
  let ?new = "start_new_chunk p curs s"
  have s: "s \<noteq> []" and rest: "\<forall>s \<in> set ss. s \<noteq> []" using Cons.prems(3) by simp_all
  show ?case
  proof (cases "int (length (py_split ?test)) \<le> chunk_size p")
    case True
    then have eq: "sentence_loop p pg cid (s # ss) cur curs = sentence_loop p pg cid ss ?test (curs @ [s])"
      by (simp add: Let_def)
    from Cons.IH [OF Cons.prems(1) loop_inv_extend [OF Cons.prems(2) s] rest] eq
    show ?thesis by simp
  next
    case False
    have inv: "loop_inv (fst ?new) (snd ?new)"
      by (rule loop_inv_start_new [OF Cons.prems(2) s])
    show ?thesis
    proof (cases "cur = []")
      case True
      with False have "sentence_loop p pg cid (s # ss) cur curs = sentence_loop p pg cid ss (fst ?new) (snd ?new)"
        by (simp add: Let_def)
      with Cons.IH [OF Cons.prems(1) inv rest] show ?thesis by simp
    next
      case ne: False
      let ?later = "sentence_loop p pg (Suc cid) ss (fst ?new) (snd ?new)"
      from ne False have eq: "sentence_loop p pg cid (s # ss) cur curs = (cid, cur, pg, curs) # ?later"
        by (simp add: Let_def)
      have succ: "successively (overlaps p) ?later"
        by (rule Cons.IH [OF Cons.prems(1) inv rest])
      from ne Cons.prems(2) have curs: "curs \<noteq> []" using loop_inv_Nil_iff by blast
      with Cons.prems(1) have new: "snd ?new = py_last_n (nat (chunk_overlap p)) curs @ [s]"
        by (simp add: start_new_chunk_def Let_def)
      have "overlaps p (cid, cur, pg, curs) (hd ?later)" if "?later \<noteq> []"
      proof -
        from sentence_loop_first [OF inv rest that]
        have "prefix (py_last_n (nat (chunk_overlap p)) curs @ [s]) (call_sentences (hd ?later))"
          by (simp only: new)
        then have "prefix (py_last_n (nat (chunk_overlap p)) curs) (call_sentences (hd ?later))"
          by (rule append_prefixD)
        then show ?thesis
          by (simp add: overlaps_def tail_sentences_def call_sentences_def py_last_n_min)
      qed
      with succ have "successively (overlaps p) ((cid, cur, pg, curs) # ?later)"
        by (cases ?later) auto
      with eq show ?thesis by simp
    qed
  qed
qed

lemma page_loop_pages:
  "c \<in> set (page_loop p cid pds) \<Longrightarrow> call_page c \<in> pd_page ` set pds"
  using page_loop_calls [of c p cid pds] by blast

lemma page_loop_overlaps:
  "0 < chunk_overlap p \<Longrightarrow> distinct (map pd_page pds) \<Longrightarrow>
   successively (overlaps_on_page p) (page_loop p cid pds)"
proof (induction pds arbitrary: cid)
  case Nil
  then show ?case by simp
next
  case (Cons pd pds)
  let ?ss = "split_into_sentences (pd_text pd)"
  let ?calls = "sentence_loop p (pd_page pd) cid ?ss [] []"
  let ?later = "page_loop p (cid + length ?calls) pds"
  have ne: "\<forall>s \<in> set ?ss. s \<noteq> []" using sentence_wellformed(1) by blast
  have "successively (overlaps p) ?calls"
    by (rule sentence_loop_overlaps [OF Cons.prems(1) loop_inv_empty ne])
  then have a: "successively (overlaps_on_page p) ?calls"
    by (rule successively_mono) (simp add: overlaps_on_page_def)
  have b: "successively (overlaps_on_page p) ?later"
    using Cons.prems by (intro Cons.IH) simp_all
  have c: "overlaps_on_page p (last ?calls) (hd ?later)" if "?calls \<noteq> []" "?later \<noteq> []"
  proof -
    from that(1) have "last ?calls \<in> set ?calls" by simp
    from sentence_loop_calls [OF loop_inv_empty ne this] have 1: "call_page (last ?calls) = pd_page pd"
      by simp
    from that(2) have "hd ?later \<in> set ?later" by simp
    then have "call_page (hd ?later) \<in> pd_page ` set pds" by (rule page_loop_pages)
    with Cons.prems(2) 1 have "call_page (last ?calls) \<noteq> call_page (hd ?later)" by auto
    then show ?thesis by (simp add: overlaps_on_page_def)
  qed
  from c have d: "?calls = [] \<or> ?later = [] \<or> overlaps_on_page p (last ?calls) (hd ?later)"
    by blast
  have "successively (overlaps_on_page p) (?calls @ ?later)"
    unfolding successively_append_iff using a b d by (intro conjI)
  moreover have "page_loop p cid (pd # pds) = ?calls @ ?later" by (simp add: Let_def)
  ultimately show ?case by (simp only:)
qed

lemma py_join_append_prefix: "\<exists>w. py_join sep (xs @ zs) = py_join sep xs @ w"
proof (induction sep xs rule: py_join.induct)
  case (1 sep)
  then show ?case by simp
next
  case (2 sep x)
  then show ?case by (cases zs) simp_all
next
  case (3 sep x y ys)
  then obtain w where "py_join sep ((y # ys) @ zs) = py_join sep (y # ys) @ w" by blast
  then show ?case by simp
qed

lemma py_join_prefix: "prefix xs ys \<Longrightarrow> prefix (py_join sep xs) (py_join sep ys)"
  using py_join_append_prefix [of sep xs] by (auto simp: prefix_def)

lemma page_loop_append:
  "page_loop p cid (xs @ ys) = page_loop p cid xs @ page_loop p (cid + length (page_loop p cid xs)) ys"
  by (induction xs arbitrary: cid) (simp_all add: Let_def add.assoc)

lemma page_loop_concat:
  "page_loop p 0 pds =
     concat (map (\<lambda>j. sentence_loop p (pd_page (pds ! j)) (length (page_loop p 0 (take j pds)))
                         (split_into_sentences (pd_text (pds ! j))) [] []) [0..<length pds])"
proof (induction pds rule: rev_induct)
  case Nil
  then show ?case by simp
next
  case (snoc pd pds)
  let ?f = "\<lambda>qs j. sentence_loop p (pd_page (qs ! j)) (length (page_loop p 0 (take j qs)))
                         (split_into_sentences (pd_text (qs ! j))) [] []"
  let ?last = "sentence_loop p (pd_page pd) (length (page_loop p 0 pds))
                 (split_into_sentences (pd_text pd)) [] []"
  have a: "map (?f (pds @ [pd])) [0..<length pds] = map (?f pds) [0..<length pds]"
    by (rule map_cong) (simp_all add: nth_append)
  have b: "?f (pds @ [pd]) (length pds) = ?last"
    by simp
  have c: "page_loop p 0 (pds @ [pd]) = page_loop p 0 pds @ ?last"
    by (simp add: page_loop_append Let_def)
  have split: "[0..<length (pds @ [pd])] = [0..<length pds] @ [length pds]" by simp
  have "concat (map (?f (pds @ [pd])) [0..<length (pds @ [pd])]) =
          concat (map (?f (pds @ [pd])) [0..<length pds]) @ ?f (pds @ [pd]) (length pds)"
    unfolding split by (simp only: map_append concat_append list.map concat.simps append_Nil2)
  also have "\<dots> = concat (map (?f pds) [0..<length pds]) @ ?last"
    by (simp only: a b)
  also have "\<dots> = page_loop p 0 pds @ ?last"
    by (simp only: snoc.IH [symmetric])
  also have "\<dots> = page_loop p 0 (pds @ [pd])"
    by (simp only: c)
  finally show ?case by (rule sym)
qed

lemma chunk_calls_concat:
  "chunk_calls p dd = concat (map (page_calls p dd) [0..<length (content dd)])"
  unfolding chunk_calls_def page_calls_def Let_def by (rule page_loop_concat)

lemma page_calls_overlap:
  assumes "0 < chunk_overlap p" "j < length (content dd)" "Suc i < length (page_calls p dd j)"
  shows "prefix (tail_sentences p (page_calls p dd j ! i)) (call_sentences (page_calls p dd j ! Suc i))"
proof -
  let ?pd = "content dd ! j"
  have ne: "\<forall>s \<in> set (split_into_sentences (pd_text ?pd)). s \<noteq> []"
    using sentence_wellformed(1) by blast
  have "successively (overlaps p) (page_calls p dd j)"
    unfolding page_calls_def Let_def
    by (rule sentence_loop_overlaps [OF assms(1) loop_inv_empty ne])
  with assms(3) have "overlaps p (page_calls p dd j ! i) (page_calls p dd j ! Suc i)"
    by (simp add: successively_conv_nth)
  then show ?thesis by (simp add: overlaps_def)
qed

lemma overlap_text:
  assumes "c' \<in> set (chunk_calls p dd)" "prefix (tail_sentences p c) (call_sentences c')"
  shows "prefix (py_join [32] (tail_sentences p c)) (chunk_text (create_chunk (metadata dd) c'))"
  unfolding chunk_call_text [OF assms(1)] using assms(2) by (rule py_join_prefix)

lemma chunk_calls_overlap:
  assumes "0 < chunk_overlap p" "distinct (map pd_page (content dd))"
    "Suc i < length (chunk_calls p dd)"
    "call_page (chunk_calls p dd ! i) = call_page (chunk_calls p dd ! Suc i)"
  shows "prefix (tail_sentences p (chunk_calls p dd ! i)) (call_sentences (chunk_calls p dd ! Suc i))"
proof -
  have "successively (overlaps_on_page p) (chunk_calls p dd)"
    unfolding chunk_calls_def by (rule page_loop_overlaps [OF assms(1,2)])
  with assms(3) have "overlaps_on_page p (chunk_calls p dd ! i) (chunk_calls p dd ! Suc i)"
    by (simp add: successively_conv_nth)
  with assms(4) show ?thesis by (simp add: overlaps_on_page_def overlaps_def)
qed



text \<open>
  C4. With a positive overlap, the calls of \<open>_create_chunk\<close> for a document are the calls
  for its pages, page after page, and whenever two consecutive chunks are made for the same
  page, the last \<open>min(overlap, sentence_count)\<close> sentences of the first are, in order, the
  leading sentences of the second, and their join by single spaces is the beginning of the
  second chunk's text. When the page numbers of the document differ from page to page, the
  same holds of every two consecutive chunks of the document with the same page number.
\<close>

theorem consecutive_chunks_overlap:
  assumes "0 < chunk_overlap p"
  shows "chunk_calls p dd = concat (map (page_calls p dd) [0..<length (content dd)]) \<and>
    (\<forall>j i. j < length (content dd) \<and> Suc i < length (page_calls p dd j) \<longrightarrow>
       prefix (tail_sentences p (page_calls p dd j ! i)) (call_sentences (page_calls p dd j ! Suc i)) \<and>
       prefix (py_join [32] (tail_sentences p (page_calls p dd j ! i)))
              (chunk_text (create_chunk (metadata dd) (page_calls p dd j ! Suc i)))) \<and>
    (distinct (map pd_page (content dd)) \<longrightarrow>
       (\<forall>i. Suc i < length (chunk_calls p dd) \<and>
            call_page (chunk_calls p dd ! i) = call_page (chunk_calls p dd ! Suc i) \<longrightarrow>
          prefix (tail_sentences p (chunk_calls p dd ! i)) (call_sentences (chunk_calls p dd ! Suc i)) \<and>
          prefix (py_join [32] (tail_sentences p (chunk_calls p dd ! i)))
                 (chunk_text (split_text_into_chunks p dd ! Suc i))))"
proof (intro conjI allI impI)
  show "chunk_calls p dd = concat (map (page_calls p dd) [0..<length (content dd)])"
    by (rule chunk_calls_concat)
next
  fix j i
  assume a: "j < length (content dd) \<and> Suc i < length (page_calls p dd j)"
  then have j: "j < length (content dd)" and i: "Suc i < length (page_calls p dd j)" by simp_all
  show 1: "prefix (tail_sentences p (page_calls p dd j ! i)) (call_sentences (page_calls p dd j ! Suc i))"
    by (rule page_calls_overlap [OF assms j i])
  have "page_calls p dd j ! Suc i \<in> set (page_calls p dd j)" using i by simp
  with j have "page_calls p dd j ! Suc i \<in> set (chunk_calls p dd)"
    unfolding chunk_calls_concat [of p dd] by auto
  then show "prefix (py_join [32] (tail_sentences p (page_calls p dd j ! i)))
              (chunk_text (create_chunk (metadata dd) (page_calls p dd j ! Suc i)))"
    using 1 by (rule overlap_text)
next
  fix i
  assume d: "distinct (map pd_page (content dd))"
    and a: "Suc i < length (chunk_calls p dd) \<and>
            call_page (chunk_calls p dd ! i) = call_page (chunk_calls p dd ! Suc i)"
  then have i: "Suc i < length (chunk_calls p dd)"
    and pg: "call_page (chunk_calls p dd ! i) = call_page (chunk_calls p dd ! Suc i)" by simp_all
  show 1: "prefix (tail_sentences p (chunk_calls p dd ! i)) (call_sentences (chunk_calls p dd ! Suc i))"
    by (rule chunk_calls_overlap [OF assms d i pg])
  have "chunk_calls p dd ! Suc i \<in> set (chunk_calls p dd)" using i by simp
  from overlap_text [OF this 1]
  show "prefix (py_join [32] (tail_sentences p (chunk_calls p dd ! i)))
                 (chunk_text (split_text_into_chunks p dd ! Suc i))"
    using i by (simp add: split_text_into_chunks_def)
qed

lemma scenario_page_calls:
  "page_calls scenario_processor scenario_document 0 = chunk_calls scenario_processor scenario_document"
  by (simp add: page_calls_def chunk_calls_def scenario_document_def del: sentence_loop.simps)

theorem consecutive_chunks_overlap_witness:
  "0 < chunk_overlap scenario_processor \<and>
   0 < length (content scenario_document) \<and>
   Suc 1 < length (page_calls scenario_processor scenario_document 0) \<and>
   distinct (map pd_page (content scenario_document)) \<and>
   call_page (chunk_calls scenario_processor scenario_document ! 1) =
     call_page (chunk_calls scenario_processor scenario_document ! Suc 1) \<and>
   tail_sentences scenario_processor (chunk_calls scenario_processor scenario_document ! 1) =
     [ustr_of ''AI is powerful''] \<and>
   prefix [ustr_of ''AI is powerful'']
     (call_sentences (chunk_calls scenario_processor scenario_document ! Suc 1)) \<and>
   prefix (ustr_of ''AI is powerful'')
     (chunk_text (split_text_into_chunks scenario_processor scenario_document ! Suc 1))"
proof -
  let ?cs = "chunk_calls scenario_processor scenario_document"
  have a: "0 < chunk_overlap scenario_processor" by (simp add: scenario_processor_def)
  have b: "distinct (map pd_page (content scenario_document))" by (simp add: scenario_document_def)
  have j: "0 < length (content scenario_document)" by (simp add: scenario_document_def)
  have c: "Suc 1 < length ?cs" by (simp add: scenario_calls)
  have d: "call_page (?cs ! 1) = call_page (?cs ! Suc 1)"
    by (simp add: scenario_calls call_page_def)
  have k: "nat (chunk_overlap scenario_processor) = 1" by (simp add: scenario_processor_def)
  have t: "tail_sentences scenario_processor (?cs ! 1) = [ustr_of ''AI is powerful'']"
    by (simp add: tail_sentences_def scenario_calls call_sentences_def k py_last_n_def)
  note w = consecutive_chunks_overlap [OF a, of scenario_document]
  from w [THEN conjunct2, THEN conjunct1, THEN spec, THEN spec, of 0 1] j c
  have 1: "prefix (tail_sentences scenario_processor (?cs ! 1)) (call_sentences (?cs ! Suc 1))"
    by (simp add: scenario_page_calls)
  from w [THEN conjunct2, THEN conjunct2, THEN mp, OF b, THEN spec, of 1] c d
  have 2: "prefix (py_join [32] (tail_sentences scenario_processor (?cs ! 1)))
                 (chunk_text (split_text_into_chunks scenario_processor scenario_document ! Suc 1))"
    by simp
  from 1 2 a b j c d t show ?thesis
    by (simp add: scenario_page_calls)
qed

section \<open>The embedder: facts\<close>

lemma split_from_spaces: "\<forall>c \<in> set t. is_space c \<Longrightarrow> split_from [] t = []"
  by (induction t) simp_all

lemma clean_text_spaces: "\<forall>c \<in> set t. is_space c \<Longrightarrow> clean_text t = []"
  by (simp add: clean_text_def py_split_def split_from_spaces Let_def)

text \<open>
  C8. For a text that is empty or consists of whitespace only, \<open>generate_embedding\<close> returns
  the zero vector, whose length is the configured dimension, and makes no request to the
  provider: the log of requests is unchanged.
\<close>

theorem generate_embedding_blank:
  assumes "\<forall>c \<in> set t. is_space c"
  shows "generate_embedding prov e reqs t = (Inr (replicate (embedding_dimension e) 0), reqs) \<and>
         length (replicate (embedding_dimension e) (0::real)) = embedding_dimension e"
  using clean_text_spaces [OF assms] by (simp add: generate_embedding_def zero_vector_def)

theorem generate_embedding_blank_witness:
  "is_space 32 \<and> is_space 9 \<and> is_space 10 \<and>
   generate_embedding (\<lambda>reqs req. Inl (ProviderError ''unreachable''))
      (new_embedding_service (ustr_of ''text-embedding-3-large'')) [] [32, 9, 10] =
     (Inr (replicate 3072 0), [])"
proof -
  have s: "\<forall>c \<in> set [32, 9, 10]. is_space c" by (simp add: is_space_def)
  have d: "embedding_dimension (new_embedding_service (ustr_of ''text-embedding-3-large'')) = 3072"
    by (simp add: new_embedding_service_def get_embedding_dimension_def ustr_of_def)
  from generate_embedding_blank [OF s, of "\<lambda>reqs req. Inl (ProviderError ''unreachable'')"
      "new_embedding_service (ustr_of ''text-embedding-3-large'')" "[]"] s
  show ?thesis by (simp add: d)
qed

section \<open>The vector store and the pipeline: facts\<close>

lemma create_collection_sync_ok:
  "c \<in> {200, 201, 409} \<Longrightarrow> create_collection_sync (Inr c)"
  by (auto simp: create_collection_sync_def)

lemma vs_initialize_ok:
  assumes "c \<in> {200, 201, 409}"
  shows "vs_initialize vs (Inr 200) (Inr c) = (True, vs\<lparr>vs_initialized := True\<rparr>)"
  using create_collection_sync_ok [OF assms]
  by (simp add: vs_initialize_def health_check_sync_def)

lemma initialize_ok:
  assumes "c \<in> {200, 201, 409}"
  shows "initialize p (Inr 200) (Inr c) =
           (True, p\<lparr>the_vector_store := (the_vector_store p)\<lparr>vs_initialized := True\<rparr>,
                    initialized := True\<rparr>)"
  by (simp add: initialize_def vs_initialize_ok [OF assms] Let_def)

text \<open>
  C6. The server's answer 409 to the creation of the collection counts as success. When
  the health check answers 200 and the creation answers 200, 201 or 409, on the first
  call and again on the second, \<open>VectorStore.initialize\<close> returns \<open>True\<close> both times, the
  store is initialized after the first call and the second call leaves it as it is; the
  same holds of \<open>RAGPipeline.initialize\<close>, which calls it.
\<close>

theorem initialize_idempotent:
  assumes "c1 \<in> {200, 201, 409}" "c2 \<in> {200, 201, 409}"
  shows "create_collection_sync (Inr 409) \<and>
         fst (vs_initialize vs (Inr 200) (Inr c1)) \<and>
         vs_initialized (snd (vs_initialize vs (Inr 200) (Inr c1))) \<and>
         vs_initialize (snd (vs_initialize vs (Inr 200) (Inr c1))) (Inr 200) (Inr c2) =
           (True, snd (vs_initialize vs (Inr 200) (Inr c1))) \<and>
         fst (initialize p (Inr 200) (Inr c1)) \<and>
         initialized (snd (initialize p (Inr 200) (Inr c1))) \<and>
         vs_initialized (the_vector_store (snd (initialize p (Inr 200) (Inr c1)))) \<and>
         initialize (snd (initialize p (Inr 200) (Inr c1))) (Inr 200) (Inr c2) =
           (True, snd (initialize p (Inr 200) (Inr c1)))"
proof -
  have "create_collection_sync (Inr 409)" by (simp add: create_collection_sync_def)
  then show ?thesis
    by (simp add: vs_initialize_ok [OF assms(1)] vs_initialize_ok [OF assms(2)]
        initialize_ok [OF assms(1)] initialize_ok [OF assms(2)])
qed

theorem initialize_idempotent_witness:
  "(201::int) \<in> {200, 201, 409} \<and> (409::int) \<in> {200, 201, 409} \<and>
   vs_initialize \<lparr>collection_name = ustr_of ''documents'', vs_initialized = False\<rparr> (Inr 200) (Inr 201) =
     (True, \<lparr>collection_name = ustr_of ''documents'', vs_initialized = True\<rparr>) \<and>
   vs_initialize \<lparr>collection_name = ustr_of ''documents'', vs_initialized = True\<rparr> (Inr 200) (Inr 409) =
     (True, \<lparr>collection_name = ustr_of ''documents'', vs_initialized = True\<rparr>) \<and>
   fst (initialize default_pipeline (Inr 200) (Inr 201)) \<and>
   initialized (snd (initialize default_pipeline (Inr 200) (Inr 201))) \<and>
   fst (initialize (snd (initialize default_pipeline (Inr 200) (Inr 201))) (Inr 200) (Inr 409))"
proof -
  let ?vs = "\<lparr>collection_name = ustr_of ''documents'', vs_initialized = False\<rparr>"
  have a: "(201::int) \<in> {200, 201, 409}" and b: "(409::int) \<in> {200, 201, 409}" by simp_all
  have 1: "vs_initialize ?vs (Inr 200) (Inr 201) =
      (True, \<lparr>collection_name = ustr_of ''documents'', vs_initialized = True\<rparr>)"
    by (simp add: vs_initialize_def health_check_sync_def create_collection_sync_def)
  from initialize_idempotent [OF a b, of ?vs default_pipeline] a b
  show ?thesis by (simp add: 1)
qed

text \<open>
  C3. On a pipeline that has not been initialized, \<open>search_documents\<close> raises
  \<open>RuntimeError\<close>; it does not return the empty list.
\<close>

theorem search_uninitialized_raises:
  "search_documents offline_world default_pipeline [] (ustr_of ''overlap'') 5 0 =
     (Inl (RuntimeError ''RAG pipeline not initialized. Call initialize() first.''), []) \<and>
   search_documents offline_world default_pipeline [] (ustr_of ''overlap'') 5 0 \<noteq> (Inr [], [])"
  by (simp add: search_documents_def default_pipeline_def new_rag_pipeline_def)

text \<open>
  C3, amended. On a pipeline that has not been initialized, \<open>search_documents\<close>,
  \<open>process_pdf_file\<close> and \<open>process_pdf_bytes\<close> all raise the same \<open>RuntimeError\<close>, for every
  input, and make no request to the provider. On an initialized pipeline \<open>search_documents\<close>
  never raises, and returns the empty list when the embedding of the query fails. The
  module's convenience function \<open>search_documents\<close> returns the empty list when the
  initialization of its pipeline fails.
\<close>

theorem uninitialized_pipeline_raises:
  assumes "\<not> initialized p"
  shows "search_documents w p reqs query top_k threshold =
           (Inl (RuntimeError ''RAG pipeline not initialized. Call initialize() first.''), reqs) \<and>
         process_pdf_file w p reqs file_path =
           (Inl (RuntimeError ''RAG pipeline not initialized. Call initialize() first.''), reqs) \<and>
         process_pdf_bytes w p reqs pdf_bytes filename =
           (Inl (RuntimeError ''RAG pipeline not initialized. Call initialize() first.''), reqs) \<and>
         (initialized q \<longrightarrow>
            (\<exists>results. fst (search_documents w q reqs query top_k threshold) = Inr results)) \<and>
         (initialized q \<and>
          fst (generate_embedding (the_provider w) (the_embedding_service q) reqs query) = Inl ex \<longrightarrow>
            fst (search_documents w q reqs query top_k threshold) = Inr []) \<and>
         (\<not> fst (initialize (new_rag_pipeline cs co m) health created) \<longrightarrow>
            module_search_documents w cs co m health created reqs query top_k = (Inr [], reqs))"
  using assms
  by (auto simp: search_documents_def process_pdf_file_def process_pdf_bytes_def process_pdf_def
      module_search_documents_def Let_def split: sum.splits)

theorem uninitialized_pipeline_raises_witness:
  "\<not> initialized default_pipeline \<and>
   search_documents offline_world default_pipeline [] (ustr_of ''overlap'') 5 0 =
     (Inl (RuntimeError ''RAG pipeline not initialized. Call initialize() first.''), []) \<and>
   process_pdf_file offline_world default_pipeline [] (ustr_of ''doc.pdf'') =
     (Inl (RuntimeError ''RAG pipeline not initialized. Call initialize() first.''), []) \<and>
   process_pdf_bytes offline_world default_pipeline [] [37, 80, 68, 70] (ustr_of ''doc.pdf'') =
     (Inl (RuntimeError ''RAG pipeline not initialized. Call initialize() first.''), []) \<and>
   initialized (snd (initialize default_pipeline (Inr 200) (Inr 201))) \<and>
   fst (generate_embedding (the_provider offline_world)
          (the_embedding_service (snd (initialize default_pipeline (Inr 200) (Inr 201)))) []
          (ustr_of ''overlap'')) = Inl (ProviderError ''connection error'') \<and>
   fst (search_documents offline_world (snd (initialize default_pipeline (Inr 200) (Inr 201))) []
          (ustr_of ''overlap'') 5 0) = Inr [] \<and>
   \<not> fst (initialize (new_rag_pipeline 512 50 (ustr_of ''text-embedding-3-small''))
            (Inl (TransportError ''connection refused'')) (Inr 201)) \<and>
   module_search_documents offline_world 512 50 (ustr_of ''text-embedding-3-small'')
       (Inl (TransportError ''connection refused'')) (Inr 201) [] (ustr_of ''overlap'') 5 = (Inr [], [])"
proof -
  let ?q = "snd (initialize default_pipeline (Inr 200) (Inr 201))"
  have a: "\<not> initialized default_pipeline"
    by (simp add: default_pipeline_def new_rag_pipeline_def)
  have b: "\<not> fst (initialize (new_rag_pipeline 512 50 (ustr_of ''text-embedding-3-small''))
            (Inl (TransportError ''connection refused'')) (Inr 201))"
    by (simp add: initialize_def vs_initialize_def health_check_sync_def Let_def)
  have c: "initialized ?q"
    by (simp add: initialize_ok)
  have "clean_text (ustr_of ''overlap'') = ustr_of ''overlap''"
    by (simp add: clean_text_def py_split_def is_space_def ustr_of_def)
  moreover have "ustr_of ''overlap'' \<noteq> []" by (simp add: ustr_of_def)
  ultimately have d: "fst (generate_embedding (the_provider offline_world) (the_embedding_service ?q) []
          (ustr_of ''overlap'')) = Inl (ProviderError ''connection error'')"
    by (simp add: generate_embedding_def offline_world_def Let_def)
  from uninitialized_pipeline_raises [OF a, of offline_world "[]" "ustr_of ''overlap''" 5 0
      "ustr_of ''doc.pdf''" "[37, 80, 68, 70]" "ustr_of ''doc.pdf''" ?q
      "ProviderError ''connection error''" 512 50
      "ustr_of ''text-embedding-3-small''" "Inl (TransportError ''connection refused'')" "Inr 201"]
    a b c d
  show ?thesis by simp
qed

section \<open>The batch embedder: facts\<close>

lemma clean_text_Nil: "clean_text [] = []"
  by (simp add: clean_text_def)

lemma clean_texts_PStr: "clean_texts (map PStr ts) = Inr (map clean_text ts)"
  by (induction ts) (simp_all add: clean_text_arg_def clean_text_Nil)

lemma valid_texts_filter:
  "map snd (filter (\<lambda>(idx, t). P t) (enumerate n xs)) = filter P xs"
  by (induction xs arbitrary: n) simp_all

lemma valid_empty:
  "filter (\<lambda>(idx, t). P t) (enumerate n xs) = [] \<longleftrightarrow> filter P xs = []"
  by (induction xs arbitrary: n) auto

lemma valid_indices_set:
  "idx \<in> set (map fst (filter (\<lambda>(idx, t). P t) (enumerate 0 xs))) \<longleftrightarrow> idx < length xs \<and> P (xs ! idx)"
  by (auto simp: in_set_enumerate_eq image_iff)

lemma reconstruct_length:
  "reconstruct z vis idxs it = Inr embs \<Longrightarrow> length embs = length idxs"
  by (induction idxs arbitrary: it embs) (auto split: if_splits list.splits sum.splits)

lemma reconstruct_short:
  "length it < length (filter (\<lambda>i. i \<in> set vis) idxs) \<Longrightarrow> reconstruct z vis idxs it = Inl StopIteration"
  by (induction idxs arbitrary: it) (auto split: list.splits)

lemma reconstruct_ok:
  "length (filter (\<lambda>i. i \<in> set vis) idxs) \<le> length it \<Longrightarrow>
   \<exists>embs. reconstruct z vis idxs it = Inr embs \<and> length embs = length idxs \<and>
     (\<forall>m < length idxs. embs ! m =
        (if idxs ! m \<in> set vis then it ! length (filter (\<lambda>i. i \<in> set vis) (take m idxs)) else z))"
proof (induction idxs arbitrary: it)
  case Nil
  then show ?case by simp
next
  case (Cons idx idxs)
  show ?case
  proof (cases "idx \<in> set vis")
    case True
    with Cons.prems obtain d ds where it: "it = d # ds" by (cases it) auto
    with True Cons.prems have "length (filter (\<lambda>i. i \<in> set vis) idxs) \<le> length ds" by simp
    from Cons.IH [OF this] obtain embs where e: "reconstruct z vis idxs ds = Inr embs"
      "length embs = length idxs"
      "\<forall>m < length idxs. embs ! m =
        (if idxs ! m \<in> set vis then ds ! length (filter (\<lambda>i. i \<in> set vis) (take m idxs)) else z)"
      by blast
    have "\<forall>m < length (idx # idxs). (d # embs) ! m =
        (if (idx # idxs) ! m \<in> set vis
         then it ! length (filter (\<lambda>i. i \<in> set vis) (take m (idx # idxs))) else z)"
    proof (intro allI impI)
      fix m assume "m < length (idx # idxs)"
      then show "(d # embs) ! m =
        (if (idx # idxs) ! m \<in> set vis
         then it ! length (filter (\<lambda>i. i \<in> set vis) (take m (idx # idxs))) else z)"
        using e(3) True it by (cases m) simp_all
    qed
    with e(1,2) True it show ?thesis by simp
  next
    case False
    with Cons.prems have "length (filter (\<lambda>i. i \<in> set vis) idxs) \<le> length it" by simp
    from Cons.IH [OF this] obtain embs where e: "reconstruct z vis idxs it = Inr embs"
      "length embs = length idxs"
      "\<forall>m < length idxs. embs ! m =
        (if idxs ! m \<in> set vis then it ! length (filter (\<lambda>i. i \<in> set vis) (take m idxs)) else z)"
      by blast
    have "\<forall>m < length (idx # idxs). (z # embs) ! m =
        (if (idx # idxs) ! m \<in> set vis
         then it ! length (filter (\<lambda>i. i \<in> set vis) (take m (idx # idxs))) else z)"
    proof (intro allI impI)
      fix m assume "m < length (idx # idxs)"
      then show "(z # embs) ! m =
        (if (idx # idxs) ! m \<in> set vis
         then it ! length (filter (\<lambda>i. i \<in> set vis) (take m (idx # idxs))) else z)"
        using e(3) False by (cases m) simp_all
    qed
    with e(1,2) False show ?thesis by simp
  qed
qed

lemma count_upt:
  "m \<le> length xs \<Longrightarrow> length (filter (\<lambda>i. i < length xs \<and> P (xs ! i)) [0..<m]) = length (filter P (take m xs))"
proof (induction m)
  case 0
  then show ?case by simp
next
  case (Suc m)
  then have "take (Suc m) xs = take m xs @ [xs ! m]" by (simp add: take_Suc_conv_app_nth)
  with Suc show ?case by simp
qed

lemma process_batch_length:
  "length (fst (process_batch prov e reqs texts)) = length texts"
  by (auto simp: process_batch_def Let_def dest: reconstruct_length split: sum.splits)

lemma process_batch_PStr:
  "process_batch prov e reqs (map PStr ts) =
     (if filter (\<lambda>t. t \<noteq> []) (map clean_text ts) = []
      then (replicate (length ts) (zero_vector e), reqs)
      else (case prov reqs (model e, Many (filter (\<lambda>t. t \<noteq> []) (map clean_text ts))) of
              Inl ex \<Rightarrow> (replicate (length ts) (zero_vector e),
                         reqs @ [(model e, Many (filter (\<lambda>t. t \<noteq> []) (map clean_text ts)))])
            | Inr data \<Rightarrow>
                (case reconstruct (zero_vector e)
                        (map fst (filter (\<lambda>(idx, t). t \<noteq> []) (enumerate 0 (map clean_text ts))))
                        [0..<length ts] data of
                   Inl ex \<Rightarrow> (replicate (length ts) (zero_vector e),
                              reqs @ [(model e, Many (filter (\<lambda>t. t \<noteq> []) (map clean_text ts)))])
                 | Inr embs \<Rightarrow> (embs, reqs @ [(model e, Many (filter (\<lambda>t. t \<noteq> []) (map clean_text ts)))]))))"
  by (simp add: process_batch_def clean_texts_PStr valid_texts_filter valid_empty Let_def
      split: sum.splits)

lemma process_batch_requests:
  "snd (process_batch prov e reqs (map PStr ts)) =
     reqs @ (if filter (\<lambda>t. t \<noteq> []) (map clean_text ts) = [] then []
             else [(model e, Many (filter (\<lambda>t. t \<noteq> []) (map clean_text ts)))])"
  by (simp add: process_batch_PStr split: sum.splits)

lemma valid_count:
  assumes "m \<le> length ts"
  shows "length (filter (\<lambda>i. i \<in> set (map fst (filter (\<lambda>(idx, t). t \<noteq> []) (enumerate 0 (map clean_text ts)))))
                   [0..<m]) =
         length (filter (\<lambda>t. t \<noteq> []) (map clean_text (take m ts)))"
proof -
  have "length (filter (\<lambda>i. i < length (map clean_text ts) \<and> map clean_text ts ! i \<noteq> []) [0..<m]) =
        length (filter (\<lambda>t. t \<noteq> []) (take m (map clean_text ts)))"
    using assms by (intro count_upt) simp
  then show ?thesis by (simp only: valid_indices_set take_map)
qed

lemma process_batch_outcome:
  "batch_outcome prov e reqs ts (fst (process_batch prov e reqs (map PStr ts)))"
proof -
  let ?V = "filter (\<lambda>t. t \<noteq> []) (map clean_text ts)"
  let ?vis = "map fst (filter (\<lambda>(idx, t). t \<noteq> []) (enumerate 0 (map clean_text ts)))"
  let ?Z = "replicate (length ts) (zero_vector e)"
  show ?thesis
  proof (cases "?V = []")
    case True
    then show ?thesis by (simp add: batch_outcome_def process_batch_PStr)
  next
    case V: False
    show ?thesis
    proof (cases "prov reqs (model e, Many ?V)")
      case (Inl ex)
      with V show ?thesis by (simp add: batch_outcome_def process_batch_PStr)
    next
      case (Inr data)
      have cnt: "length (filter (\<lambda>i. i \<in> set ?vis) [0..<length ts]) = length ?V"
        using valid_count [of "length ts" ts] by simp
      show ?thesis
      proof (cases "length data < length ?V")
        case True
        then have "reconstruct (zero_vector e) ?vis [0..<length ts] data = Inl StopIteration"
          by (intro reconstruct_short) (simp only: cnt)
        with V Inr True show ?thesis by (simp add: batch_outcome_def process_batch_PStr)
      next
        case False
        then have "length ?V \<le> length data" by simp
        then have "length (filter (\<lambda>i. i \<in> set ?vis) [0..<length ts]) \<le> length data"
          by (simp only: cnt)
        from reconstruct_ok [OF this, of "zero_vector e"]
        obtain embs where e: "reconstruct (zero_vector e) ?vis [0..<length ts] data = Inr embs"
          "length embs = length ts"
          "\<forall>m < length ts. embs ! m =
             (if m \<in> set ?vis then data ! length (filter (\<lambda>i. i \<in> set ?vis) (take m [0..<length ts]))
              else zero_vector e)"
          by auto
        have "\<forall>i < length ts. embs ! i =
                (if clean_text (ts ! i) = [] then zero_vector e
                 else data ! length (filter (\<lambda>t. t \<noteq> []) (map clean_text (take i ts))))"
        proof (intro allI impI)
          fix i assume i: "i < length ts"
          then have "take i [0..<length ts] = [0..<i]" by (simp add: take_upt)
          moreover have "length (filter (\<lambda>i. i \<in> set ?vis) [0..<i]) =
              length (filter (\<lambda>t. t \<noteq> []) (map clean_text (take i ts)))"
            using i by (intro valid_count) simp
          moreover have "i \<in> set ?vis \<longleftrightarrow> clean_text (ts ! i) \<noteq> []"
            unfolding valid_indices_set using i by simp
          ultimately show "embs ! i =
                (if clean_text (ts ! i) = [] then zero_vector e
                 else data ! length (filter (\<lambda>t. t \<noteq> []) (map clean_text (take i ts))))"
            using e(3) i by simp
        qed
        with V Inr False e(1,2) show ?thesis
          by (simp add: batch_outcome_def process_batch_PStr)
      qed
    qed
  qed
qed

lemma batch_outcome_zero:
  assumes "batch_outcome prov e reqs batch out" "i < length batch" "clean_text (batch ! i) = []"
  shows "out ! i = zero_vector e"
  using assms by (auto simp: batch_outcome_def Let_def split: if_splits sum.splits)

lemma batch_loop_done:
  "\<not> (0 < bs \<and> i < length texts) \<Longrightarrow> batch_loop prov e bs texts i reqs acc = (acc, reqs)"
  by (subst batch_loop.simps [of prov e bs texts i reqs acc]) auto

lemma batch_loop_step:
  "0 < bs \<Longrightarrow> i < length texts \<Longrightarrow>
   batch_loop prov e bs texts i reqs acc =
     batch_loop prov e bs texts (i + bs) (snd (process_batch prov e reqs (take bs (drop i texts))))
       (acc @ fst (process_batch prov e reqs (take bs (drop i texts))))"
  by (subst batch_loop.simps [of prov e bs texts i reqs acc]) (simp add: Let_def)

lemma batch_loop_acc:
  "batch_loop prov e bs texts i reqs acc =
     (acc @ fst (batch_loop prov e bs texts i reqs []), snd (batch_loop prov e bs texts i reqs []))"
proof (induction "length texts - i" arbitrary: i reqs acc rule: less_induct)
  case less
  show ?case
  proof (cases "0 < bs \<and> i < length texts")
    case True
    let ?r = "process_batch prov e reqs (take bs (drop i texts))"
    have m: "length texts - (i + bs) < length texts - i" using True by arith
    have 1: "batch_loop prov e bs texts (i + bs) (snd ?r) (acc @ fst ?r) =
        ((acc @ fst ?r) @ fst (batch_loop prov e bs texts (i + bs) (snd ?r) []),
         snd (batch_loop prov e bs texts (i + bs) (snd ?r) []))"
      by (rule less.hyps [OF m])
    have 2: "batch_loop prov e bs texts (i + bs) (snd ?r) ([] @ fst ?r) =
        (([] @ fst ?r) @ fst (batch_loop prov e bs texts (i + bs) (snd ?r) []),
         snd (batch_loop prov e bs texts (i + bs) (snd ?r) []))"
      by (rule less.hyps [OF m])
    from True have "batch_loop prov e bs texts i reqs acc =
        batch_loop prov e bs texts (i + bs) (snd ?r) (acc @ fst ?r)"
      by (simp add: batch_loop_step)
    moreover from True have "batch_loop prov e bs texts i reqs [] =
        batch_loop prov e bs texts (i + bs) (snd ?r) ([] @ fst ?r)"
      by (simp add: batch_loop_step)
    ultimately show ?thesis by (simp only: 1 2) simp
  next
    case False
    then have "batch_loop prov e bs texts i reqs acc = (acc, reqs)"
      and "batch_loop prov e bs texts i reqs [] = ([], reqs)"
      by (rule batch_loop_done)+
    then show ?thesis by simp
  qed
qed

lemma batch_loop_shift:
  "batch_loop prov e bs texts (i + j) reqs acc = batch_loop prov e bs (drop j texts) i reqs acc"
proof (induction "length texts - (i + j)" arbitrary: i reqs acc rule: less_induct)
  case less
  show ?case
  proof (cases "0 < bs \<and> i + j < length texts")
    case True
    let ?r = "process_batch prov e reqs (take bs (drop (i + j) texts))"
    have m: "length texts - (i + bs + j) < length texts - (i + j)" using True by arith
    have eq: "take bs (drop i (drop j texts)) = take bs (drop (i + j) texts)" by simp
    have "i < length texts - j" using True by arith
    then have c: "0 < bs" "i < length (drop j texts)" using True by simp_all
    have "batch_loop prov e bs texts (i + j) reqs acc =
        batch_loop prov e bs texts (i + j + bs) (snd ?r) (acc @ fst ?r)"
      using True by (simp add: batch_loop_step)
    also have "i + j + bs = i + bs + j" by simp
    also have "batch_loop prov e bs texts (i + bs + j) (snd ?r) (acc @ fst ?r) =
        batch_loop prov e bs (drop j texts) (i + bs) (snd ?r) (acc @ fst ?r)"
      by (rule less.hyps [OF m])
    also have "\<dots> = batch_loop prov e bs (drop j texts) i reqs acc"
      by (simp only: batch_loop_step [OF c] eq)
    finally show ?thesis .
  next
    case False
    then have "\<not> (0 < bs \<and> i < length (drop j texts))" by auto
    then have "batch_loop prov e bs (drop j texts) i reqs acc = (acc, reqs)"
      by (rule batch_loop_done)
    moreover from False have "batch_loop prov e bs texts (i + j) reqs acc = (acc, reqs)"
      by (rule batch_loop_done)
    ultimately show ?thesis by simp
  qed
qed

lemma batch_loop_Nil: "batch_loop prov e bs [] 0 reqs [] = ([], reqs)"
  by (simp add: batch_loop_done)

lemma batch_loop_unfold:
  assumes "0 < bs" "texts \<noteq> []"
  shows "batch_loop prov e bs texts 0 reqs [] =
     (fst (process_batch prov e reqs (take bs texts)) @
        fst (batch_loop prov e bs (drop bs texts) 0 (snd (process_batch prov e reqs (take bs texts))) []),
      snd (batch_loop prov e bs (drop bs texts) 0 (snd (process_batch prov e reqs (take bs texts))) []))"
proof -
  let ?r = "process_batch prov e reqs (take bs texts)"
  from assms have "batch_loop prov e bs texts 0 reqs [] = batch_loop prov e bs texts (0 + bs) (snd ?r) (fst ?r)"
    by (simp add: batch_loop_step)
  also have "\<dots> = batch_loop prov e bs (drop bs texts) 0 (snd ?r) (fst ?r)"
    by (rule batch_loop_shift)
  also have "\<dots> = (fst ?r @ fst (batch_loop prov e bs (drop bs texts) 0 (snd ?r) []),
                    snd (batch_loop prov e bs (drop bs texts) 0 (snd ?r) []))"
    by (rule batch_loop_acc)
  finally show ?thesis .
qed

lemma batch_loop_length:
  "0 < bs \<Longrightarrow> length (fst (batch_loop prov e bs texts 0 reqs [])) = length texts"
proof (induction "length texts" arbitrary: texts reqs rule: less_induct)
  case less
  show ?case
  proof (cases "texts = []")
    case True
    then show ?thesis by (simp add: batch_loop_Nil)
  next
    case False
    with less.prems have "length (drop bs texts) < length texts" by simp
    from less.hyps [OF this less.prems] show ?thesis
      by (simp add: batch_loop_unfold [OF less.prems False] process_batch_length)
  qed
qed

lemma batch_loop_zero:
  "0 < bs \<Longrightarrow> i < length ts \<Longrightarrow> clean_text (ts ! i) = [] \<Longrightarrow>
   fst (batch_loop prov e bs (map PStr ts) 0 reqs []) ! i = zero_vector e"
proof (induction "length ts" arbitrary: ts reqs i rule: less_induct)
  case less
  let ?pb = "process_batch prov e reqs (map PStr (take bs ts))"
  let ?R = "batch_loop prov e bs (map PStr (drop bs ts)) 0 (snd ?pb) []"
  from less.prems have ne: "map PStr ts \<noteq> []" by auto
  have eq: "fst (batch_loop prov e bs (map PStr ts) 0 reqs []) = fst ?pb @ fst ?R"
    by (simp add: batch_loop_unfold [OF less.prems(1) ne] take_map drop_map)
  have len: "length (fst ?pb) = min (length ts) bs"
    by (simp add: process_batch_length)
  show ?case
  proof (cases "i < bs")
    case True
    with less.prems have i: "i < length (take bs ts)" by simp
    have "clean_text (take bs ts ! i) = []" using True less.prems by simp
    from batch_outcome_zero [OF process_batch_outcome i this, of prov e reqs]
    have "fst ?pb ! i = zero_vector e" .
    with True less.prems len show ?thesis by (simp add: eq nth_append)
  next
    case False
    with less.prems have s: "length (drop bs ts) < length ts" by simp
    have i: "i - bs < length (drop bs ts)" using False less.prems by simp
    have "clean_text (drop bs ts ! (i - bs)) = []" using False less.prems by simp
    from less.hyps [OF s less.prems(1) i this]
    have "fst ?R ! (i - bs) = zero_vector e" .
    with False less.prems len show ?thesis by (simp add: eq nth_append min_def)
  qed
qed

lemma batch_loop_requests:
  "0 < bs \<Longrightarrow>
   \<exists>sent. snd (batch_loop prov e bs (map PStr ts) 0 reqs []) = reqs @ map (\<lambda>v. (model e, Many v)) sent \<and>
          (\<forall>v \<in> set sent. v \<noteq> [] \<and> [] \<notin> set v)"
proof (induction "length ts" arbitrary: ts reqs rule: less_induct)
  case less
  show ?case
  proof (cases "ts = []")
    case True
    have "([]::ustr list list) = [] \<and> (\<forall>v \<in> set ([]::ustr list list). v \<noteq> [] \<and> [] \<notin> set v)" by simp
    with True show ?thesis by (simp add: batch_loop_Nil)
  next
    case False
    let ?V = "filter (\<lambda>t. t \<noteq> []) (map clean_text (take bs ts))"
    let ?pb = "process_batch prov e reqs (map PStr (take bs ts))"
    let ?first = "if ?V = [] then [] else [?V]"
    from False have ne: "map PStr ts \<noteq> []" by simp
    from False less.prems have "length (drop bs ts) < length ts" by simp
    from less.hyps [OF this less.prems, of "snd ?pb"]
    obtain sent where sent:
      "snd (batch_loop prov e bs (map PStr (drop bs ts)) 0 (snd ?pb) []) =
         snd ?pb @ map (\<lambda>v. (model e, Many v)) sent"
      "\<forall>v \<in> set sent. v \<noteq> [] \<and> [] \<notin> set v" by blast
    have pb: "snd ?pb = reqs @ map (\<lambda>v. (model e, Many v)) ?first"
      by (simp add: process_batch_requests)
    have "snd (batch_loop prov e bs (map PStr ts) 0 reqs []) =
            reqs @ map (\<lambda>v. (model e, Many v)) (?first @ sent)"
      using sent(1) by (simp add: batch_loop_unfold [OF less.prems ne] take_map drop_map pb)
    moreover have "\<forall>v \<in> set (?first @ sent). v \<noteq> [] \<and> [] \<notin> set v"
      using sent(2) by auto
    ultimately show ?thesis by blast
  qed
qed

lemma batch_loop_split:
  "0 < bs \<Longrightarrow>
   batch_loop prov e bs texts 0 reqs [] =
     (fst (batch_loop prov e bs (take (k * bs) texts) 0 reqs []) @
        fst (batch_loop prov e bs (drop (k * bs) texts) 0
               (snd (batch_loop prov e bs (take (k * bs) texts) 0 reqs [])) []),
      snd (batch_loop prov e bs (drop (k * bs) texts) 0
               (snd (batch_loop prov e bs (take (k * bs) texts) 0 reqs [])) []))"
proof (induction k arbitrary: texts reqs)
  case 0
  then show ?case by (simp add: batch_loop_Nil)
next
  case (Suc k)
  show ?case
  proof (cases "texts = []")
    case True
    then show ?thesis by (simp add: batch_loop_Nil)
  next
    case False
    let ?pb = "process_batch prov e reqs (take bs texts)"
    let ?T = "take (Suc k * bs) texts"
    from False Suc.prems have T: "?T \<noteq> []" by simp
    have t1: "take bs ?T = take bs texts" using Suc.prems by (simp add: min_def)
    have t2: "drop bs ?T = take (k * bs) (drop bs texts)" by (simp add: drop_take)
    have t3: "drop (Suc k * bs) texts = drop (k * bs) (drop bs texts)" by (simp add: add.commute)
    note IH = Suc.IH [OF Suc.prems, of "drop bs texts" "snd ?pb"]
    show ?thesis
      unfolding batch_loop_unfold [OF Suc.prems False] batch_loop_unfold [OF Suc.prems T] t1 t2 t3
      by (simp add: IH)
  qed
qed

text \<open>
  C1. For a positive \<open>batch_size\<close> and every list of strings, \<open>generate_embeddings_batch\<close>
  returns one vector for every text, in the order of the texts. A text that cleans to
  nothing has the zero vector of the configured dimension, and no request to the provider
  holds an empty text or no text. The part of the result for the \<open>k\<close>-th batch is decided
  by that batch and the provider's answer to its one request alone (\<open>batch_outcome\<close>): when
  the provider raises or answers with too few embeddings, every position of the batch is
  the zero vector; otherwise the embeddings answered stand at the positions of the texts
  sent, in order. The requests made before the batch are those of the call on the texts
  before it.
\<close>

theorem embed_many:
  assumes "0 < batch_size"
  shows "\<exists>embeddings reqs'.
     generate_embeddings_batch prov e reqs (map PStr texts) batch_size = (Inr embeddings, reqs') \<and>
     length embeddings = length texts \<and>
     (\<forall>i < length texts. clean_text (texts ! i) = [] \<longrightarrow> embeddings ! i = zero_vector e) \<and>
     (\<exists>sent. reqs' = reqs @ map (\<lambda>v. (model e, Many v)) sent \<and> (\<forall>v \<in> set sent. v \<noteq> [] \<and> [] \<notin> set v)) \<and>
     (\<forall>k. k * nat batch_size < length texts \<longrightarrow>
        batch_outcome prov e
          (snd (generate_embeddings_batch prov e reqs
                  (map PStr (take (k * nat batch_size) texts)) batch_size))
          (take (nat batch_size) (drop (k * nat batch_size) texts))
          (take (nat batch_size) (drop (k * nat batch_size) embeddings)))"
proof -
  define bs where "bs = nat batch_size"
  have bs: "0 < bs" using assms by (simp add: bs_def)
  let ?R = "batch_loop prov e bs (map PStr texts) 0 reqs []"
  have gen: "\<And>ts. generate_embeddings_batch prov e reqs (map PStr ts) batch_size =
      (Inr (fst (batch_loop prov e bs (map PStr ts) 0 reqs [])),
       snd (batch_loop prov e bs (map PStr ts) 0 reqs []))"
    using assms by (simp add: generate_embeddings_batch_def bs_def Let_def)
  have len: "length (fst ?R) = length texts"
    using batch_loop_length [OF bs, of prov e "map PStr texts" reqs] by simp
  have zero: "\<forall>i < length texts. clean_text (texts ! i) = [] \<longrightarrow> fst ?R ! i = zero_vector e"
    using batch_loop_zero [OF bs] by blast
  have sent: "\<exists>sent. snd ?R = reqs @ map (\<lambda>v. (model e, Many v)) sent \<and>
                (\<forall>v \<in> set sent. v \<noteq> [] \<and> [] \<notin> set v)"
    by (rule batch_loop_requests [OF bs])
  have batches: "\<forall>k. k * bs < length texts \<longrightarrow>
        batch_outcome prov e (snd (batch_loop prov e bs (map PStr (take (k * bs) texts)) 0 reqs []))
          (take bs (drop (k * bs) texts)) (take bs (drop (k * bs) (fst ?R)))"
  proof (intro allI impI)
    fix k assume k: "k * bs < length texts"
    let ?R1 = "batch_loop prov e bs (map PStr (take (k * bs) texts)) 0 reqs []"
    let ?post = "drop (k * bs) texts"
    let ?R2 = "batch_loop prov e bs (map PStr ?post) 0 (snd ?R1) []"
    let ?pb = "process_batch prov e (snd ?R1) (map PStr (take bs ?post))"
    let ?R3 = "batch_loop prov e bs (map PStr (drop bs ?post)) 0 (snd ?pb) []"
    have "fst ?R = fst ?R1 @ fst ?R2"
      using batch_loop_split [OF bs, of prov e "map PStr texts" reqs k]
      by (simp add: take_map drop_map)
    moreover have "length (fst ?R1) = k * bs"
      using batch_loop_length [OF bs, of prov e "map PStr (take (k * bs) texts)" reqs] k by simp
    ultimately have d: "drop (k * bs) (fst ?R) = fst ?R2" by simp
    from k have ne: "map PStr ?post \<noteq> []" by simp
    have u: "fst ?R2 = fst ?pb @ fst ?R3"
      by (simp add: batch_loop_unfold [OF bs ne] take_map drop_map)
    have l1: "length (fst ?pb) = min (length ?post) bs"
      by (simp add: process_batch_length)
    have l3: "length (fst ?R3) = length ?post - bs"
      using batch_loop_length [OF bs, of prov e "map PStr (drop bs ?post)" "snd ?pb"] by simp
    have "take bs (fst ?R2) = fst ?pb"
    proof (cases "length ?post \<le> bs")
      case True
      with l3 have "fst ?R3 = []" by simp
      with True l1 show ?thesis by (simp add: u)
    next
      case False
      with l1 show ?thesis by (simp add: u)
    qed
    with d have "take bs (drop (k * bs) (fst ?R)) = fst ?pb" by simp
    moreover have "batch_outcome prov e (snd ?R1) (take bs ?post) (fst ?pb)"
      by (rule process_batch_outcome)
    ultimately show "batch_outcome prov e (snd ?R1) (take bs ?post) (take bs (drop (k * bs) (fst ?R)))"
      by simp
  qed
  show ?thesis
    unfolding gen bs_def [symmetric]
    using len zero sent batches by simp
qed

lemma flaky_run:
  "generate_embeddings_batch flaky_provider small_service [] (map PStr [ [97], [32], [98, 99] ]) 2 =
     (Inr [ [0, 0], [0, 0], [2] ],
      [(ustr_of ''m'', Many [ [97] ]), (ustr_of ''m'', Many [ [98, 99] ])])"
  by (simp add: generate_embeddings_batch_def batch_loop.simps process_batch_def clean_text_arg_def
      clean_text_def py_split_def is_space_def flaky_provider_def small_service_def zero_vector_def
      Let_def numeral_2_eq_2)

lemma flaky_before:
  "snd (generate_embeddings_batch flaky_provider small_service [] (map PStr [ [97], [32] ]) 2) =
     [(ustr_of ''m'', Many [ [97] ])]"
  by (simp add: generate_embeddings_batch_def batch_loop.simps process_batch_def clean_text_arg_def
      clean_text_def py_split_def is_space_def flaky_provider_def small_service_def zero_vector_def
      Let_def)

theorem embed_many_witness:
  "0 < (2::int) \<and>
   generate_embeddings_batch flaky_provider small_service [] (map PStr [ [97], [32], [98, 99] ]) 2 =
     (Inr [ [0, 0], [0, 0], [2] ],
      [(ustr_of ''m'', Many [ [97] ]), (ustr_of ''m'', Many [ [98, 99] ])]) \<and>
   batch_outcome flaky_provider small_service [] [ [97], [32] ] [ [0, 0], [0, 0] ] \<and>
   batch_outcome flaky_provider small_service [(ustr_of ''m'', Many [ [97] ])] [ [98, 99] ] [ [2] ]"
proof -
  have p: "0 < (2::int)" by simp
  from embed_many [OF p, of flaky_provider small_service "[]" "[ [97], [32], [98, 99] ]"]
  have b: "\<forall>k. k * 2 < 3 \<longrightarrow>
        batch_outcome flaky_provider small_service
          (snd (generate_embeddings_batch flaky_provider small_service []
                  (map PStr (take (k * 2) [ [97], [32], [98, 99] ])) 2))
          (take 2 (drop (k * 2) [ [97], [32], [98, 99] ]))
          (take 2 (drop (k * 2) [ [0, 0], [0, 0], [2] ]))"
    unfolding flaky_run by simp
  from b [THEN spec, of 0]
  have 0: "batch_outcome flaky_provider small_service [] [ [97], [32] ] [ [0, 0], [0, 0] ]"
    by (simp add: generate_embeddings_batch_def batch_loop_Nil)
  from b [THEN spec, of 1] flaky_before
  have 1: "batch_outcome flaky_provider small_service [(ustr_of ''m'', Many [ [97] ])] [ [98, 99] ] [ [2] ]"
    by simp
  from 0 1 flaky_run show ?thesis by simp
qed

section \<open>Embeddings for chunks: facts\<close>

lemma map_of_dict_set: "map_of (dict_set k v d) = (map_of d)(k \<mapsto> v)"
  by (induction d) (auto simp: fun_upd_twist)

lemma chunk_texts_length: "chunk_texts h chunks = Inr texts \<Longrightarrow> length texts = length chunks"
  by (induction chunks arbitrary: texts) (auto split: option.splits sum.splits)

lemma chunk_texts_error:
  "chunk_texts h chunks = Inl ex \<Longrightarrow>
   ex = KeyError ''text'' \<and> (\<exists>a \<in> set chunks. map_of (h ! a) ''text'' = None)"
  by (induction chunks) (auto split: option.splits sum.splits)

lemma chunk_texts_total:
  "\<forall>a \<in> set chunks. map_of (h ! a) ''text'' \<noteq> None \<Longrightarrow> \<exists>texts. chunk_texts h chunks = Inr texts"
  by (induction chunks) auto

lemma enrich_loop_spec:
  assumes "\<forall>p \<in> set pairs. fst p < length h"
  shows "enrich_loop e h pairs =
     ([length h..<length h + length pairs],
      h @ map (\<lambda>p. dict_set ''embedding_dimension'' (PInt (int (length (snd p))))
                      (dict_set ''embedding_model'' (PStr (model e))
                         (dict_set ''embedding'' (PList (map PFloat (snd p))) (h ! fst p)))) pairs)"
  using assms
proof (induction pairs arbitrary: h)
  case Nil
  then show ?case by simp
next
  case (Cons p pairs)
  obtain a embedding where p: "p = (a, embedding)" by (cases p)
  let ?en = "dict_set ''embedding_dimension'' (PInt (int (length embedding)))
               (dict_set ''embedding_model'' (PStr (model e))
                  (dict_set ''embedding'' (PList (map PFloat embedding)) (h ! a)))"
  let ?f = "\<lambda>h p. dict_set ''embedding_dimension'' (PInt (int (length (snd p))))
                      (dict_set ''embedding_model'' (PStr (model e))
                         (dict_set ''embedding'' (PList (map PFloat (snd p))) (h ! fst p)))"
  have lt: "\<forall>q \<in> set pairs. fst q < length (h @ [?en])" using Cons.prems by auto
  have m: "map (?f (h @ [?en])) pairs = map (?f h) pairs"
    using Cons.prems by (intro map_cong) (auto simp: nth_append)
  have u: "[length h..<length h + length (p # pairs)] =
           length h # [length (h @ [?en])..<length (h @ [?en]) + length pairs]"
    by (simp add: upt_rec)
  have "enrich_loop e h (p # pairs) =
          (length h # fst (enrich_loop e (h @ [?en]) pairs), snd (enrich_loop e (h @ [?en]) pairs))"
    by (simp add: p Let_def)
  also have "\<dots> = (length h # [length (h @ [?en])..<length (h @ [?en]) + length pairs],
                    (h @ [?en]) @ map (?f (h @ [?en])) pairs)"
    by (simp only: Cons.IH [OF lt] fst_conv snd_conv)
  also have "\<dots> = ([length h..<length h + length (p # pairs)], h @ map (?f h) (p # pairs))"
    by (simp only: m u) (simp add: p)
  finally show ?case .
qed

lemma generate_embeddings_batch_100:
  "\<exists>embeddings reqs'. generate_embeddings_batch prov e reqs texts 100 = (Inr embeddings, reqs') \<and>
      length embeddings = length texts"
  using batch_loop_length [of 100 prov e texts reqs]
  by (simp add: generate_embeddings_batch_def Let_def)

text \<open>
  C9. \<open>generate_embeddings_for_chunks\<close> changes no dictionary that exists when it is called:
  the heap after the call begins with the heap before it. When a chunk has no \<open>text\<close> it
  raises \<open>KeyError\<close> and nothing is made or requested. Otherwise it returns one new
  dictionary for every chunk, in order, and the contents of the new dictionary are those of
  the chunk with \<open>embedding\<close>, \<open>embedding_model\<close> and \<open>embedding_dimension\<close> set, the
  embedding being the one \<open>generate_embeddings_batch\<close> gives for the chunk's text, and
  every other key as in the chunk.
\<close>

theorem chunks_not_mutated:
  assumes "\<forall>a \<in> set chunks. a < length h"
  shows "take (length h) (fst (snd (generate_embeddings_for_chunks prov e reqs h chunks))) = h \<and>
    (\<forall>ex. fst (generate_embeddings_for_chunks prov e reqs h chunks) = Inl ex \<longrightarrow>
       ex = KeyError ''text'' \<and> (\<exists>a \<in> set chunks. map_of (h ! a) ''text'' = None) \<and>
       snd (generate_embeddings_for_chunks prov e reqs h chunks) = (h, reqs)) \<and>
    ((\<forall>a \<in> set chunks. map_of (h ! a) ''text'' \<noteq> None) \<longrightarrow>
       (\<exists>out. fst (generate_embeddings_for_chunks prov e reqs h chunks) = Inr out)) \<and>
    (\<forall>out. fst (generate_embeddings_for_chunks prov e reqs h chunks) = Inr out \<longrightarrow>
       (\<exists>texts embeddings.
          chunk_texts h chunks = Inr texts \<and>
          generate_embeddings_batch prov e reqs texts 100 =
            (Inr embeddings, snd (snd (generate_embeddings_for_chunks prov e reqs h chunks))) \<and>
          length embeddings = length chunks \<and> length out = length chunks \<and>
          length (fst (snd (generate_embeddings_for_chunks prov e reqs h chunks))) =
            length h + length chunks \<and>
          (\<forall>i < length chunks.
             out ! i = length h + i \<and>
             map_of (fst (snd (generate_embeddings_for_chunks prov e reqs h chunks)) ! (out ! i)) =
               (map_of (h ! (chunks ! i)))
                 (''embedding'' \<mapsto> PList (map PFloat (embeddings ! i)),
                  ''embedding_model'' \<mapsto> PStr (model e),
                  ''embedding_dimension'' \<mapsto> PInt (int (length (embeddings ! i)))))))"
proof (cases "chunk_texts h chunks")
  case (Inl ex)
  then have r: "generate_embeddings_for_chunks prov e reqs h chunks = (Inl ex, h, reqs)"
    by (simp add: generate_embeddings_for_chunks_def)
  from chunk_texts_error [OF Inl] chunk_texts_total [of chunks h] Inl
  show ?thesis unfolding r by auto
next
  case (Inr texts)
  from generate_embeddings_batch_100 [of prov e reqs texts]
  obtain embeddings reqs' where
    g: "generate_embeddings_batch prov e reqs texts 100 = (Inr embeddings, reqs')"
    and "length embeddings = length texts" by blast
  with chunk_texts_length [OF Inr] have len: "length embeddings = length chunks" by simp
  let ?pairs = "zip chunks embeddings"
  let ?f = "\<lambda>p. dict_set ''embedding_dimension'' (PInt (int (length (snd p))))
                      (dict_set ''embedding_model'' (PStr (model e))
                         (dict_set ''embedding'' (PList (map PFloat (snd p))) (h ! fst p)))"
  have "\<forall>p \<in> set ?pairs. fst p < length h"
    using assms by (auto dest: set_zip_leftD)
  from enrich_loop_spec [OF this, of e]
  have l: "enrich_loop e h ?pairs = ([length h..<length h + length chunks], h @ map ?f ?pairs)"
    using len by simp
  have r: "generate_embeddings_for_chunks prov e reqs h chunks =
      (Inr [length h..<length h + length chunks], h @ map ?f ?pairs, reqs')"
    by (simp add: generate_embeddings_for_chunks_def Inr g l Let_def)
  have items: "\<forall>i < length chunks.
      [length h..<length h + length chunks] ! i = length h + i \<and>
      map_of ((h @ map ?f ?pairs) ! ([length h..<length h + length chunks] ! i)) =
        (map_of (h ! (chunks ! i)))
          (''embedding'' \<mapsto> PList (map PFloat (embeddings ! i)),
           ''embedding_model'' \<mapsto> PStr (model e),
           ''embedding_dimension'' \<mapsto> PInt (int (length (embeddings ! i))))"
    using len by (simp add: nth_append map_of_dict_set)
  show ?thesis
    unfolding r using Inr g len items by simp
qed

lemma one_chunk_texts: "chunk_texts one_chunk_heap [0] = Inr [PStr (ustr_of ''hi'')]"
  by (simp add: one_chunk_heap_def)

lemma one_chunk_batch:
  "generate_embeddings_batch flaky_provider small_service one_request [PStr (ustr_of ''hi'')] 100 =
     (Inr [ [2] ], one_request @ [(ustr_of ''m'', Many [ustr_of ''hi''])])"
  by (simp add: generate_embeddings_batch_def batch_loop.simps process_batch_def clean_text_arg_def
      clean_text_def py_split_def is_space_def flaky_provider_def small_service_def zero_vector_def
      one_request_def ustr_of_def Let_def)

lemma one_chunk_run:
  "generate_embeddings_for_chunks flaky_provider small_service one_request one_chunk_heap [0] =
     (Inr [1],
      one_chunk_heap @
        [ [(''chunk_id'', PInt 0), (''text'', PStr (ustr_of ''hi'')),
          (''embedding'', PList [PFloat 2]), (''embedding_model'', PStr (ustr_of ''m'')),
          (''embedding_dimension'', PInt 1)] ],
      one_request @ [(ustr_of ''m'', Many [ustr_of ''hi''])])"
  unfolding generate_embeddings_for_chunks_def one_chunk_texts
  by (simp add: one_chunk_batch) (simp add: one_chunk_heap_def small_service_def)

theorem chunks_not_mutated_witness:
  "(0::nat) < length one_chunk_heap \<and>
   generate_embeddings_for_chunks flaky_provider small_service one_request one_chunk_heap [0] =
     (Inr [1],
      one_chunk_heap @
        [ [(''chunk_id'', PInt 0), (''text'', PStr (ustr_of ''hi'')),
          (''embedding'', PList [PFloat 2]), (''embedding_model'', PStr (ustr_of ''m'')),
          (''embedding_dimension'', PInt 1)] ],
      one_request @ [(ustr_of ''m'', Many [ustr_of ''hi''])]) \<and>
   take (length one_chunk_heap)
     (one_chunk_heap @
        [ [(''chunk_id'', PInt 0), (''text'', PStr (ustr_of ''hi'')),
          (''embedding'', PList [PFloat 2]), (''embedding_model'', PStr (ustr_of ''m'')),
          (''embedding_dimension'', PInt 1)] ]) = one_chunk_heap \<and>
   map_of [(''chunk_id'', PInt 0), (''text'', PStr (ustr_of ''hi'')),
           (''embedding'', PList [PFloat 2]), (''embedding_model'', PStr (ustr_of ''m'')),
           (''embedding_dimension'', PInt 1)] =
     (map_of (one_chunk_heap ! 0))
       (''embedding'' \<mapsto> PList [PFloat 2], ''embedding_model'' \<mapsto> PStr (ustr_of ''m''),
        ''embedding_dimension'' \<mapsto> PInt 1)"
proof -
  have l: "(0::nat) < length one_chunk_heap" by (simp add: one_chunk_heap_def)
  then have hyp: "\<forall>a \<in> set [0]. a < length one_chunk_heap" by simp
  have ms: "model small_service = ustr_of ''m''" by (simp add: small_service_def)
  note w = chunks_not_mutated [OF hyp, of flaky_provider small_service one_request]
  from w [THEN conjunct1]
  have 1: "take (length one_chunk_heap)
     (one_chunk_heap @
        [ [(''chunk_id'', PInt 0), (''text'', PStr (ustr_of ''hi'')),
          (''embedding'', PList [PFloat 2]), (''embedding_model'', PStr (ustr_of ''m'')),
          (''embedding_dimension'', PInt 1)] ]) = one_chunk_heap"
    unfolding one_chunk_run by simp
  from w [THEN conjunct2, THEN conjunct2, THEN conjunct2, THEN spec, of "[1]"]
  have 2: "map_of [(''chunk_id'', PInt 0), (''text'', PStr (ustr_of ''hi'')),
           (''embedding'', PList [PFloat 2]), (''embedding_model'', PStr (ustr_of ''m'')),
           (''embedding_dimension'', PInt 1)] =
     (map_of (one_chunk_heap ! 0))
       (''embedding'' \<mapsto> PList [PFloat 2], ''embedding_model'' \<mapsto> PStr (ustr_of ''m''),
        ''embedding_dimension'' \<mapsto> PInt 1)"
    unfolding one_chunk_run one_chunk_texts
    by (auto simp: one_chunk_batch ms one_chunk_heap_def)
  from l 1 2 one_chunk_run show ?thesis by (simp only:)
qed

end
